theory Spec2Isabelle
  imports Complex_Main "HOL-Library.Word"
begin

unbundle bit_operations_syntax

section \<open>JavaScript values used by the encoder\<close>

text \<open>
  A JavaScript string is a sequence of UTF-16 code units; \<open>charCodeAt\<close> reads one as a
  number in 0..65535. Numbers that the code treats as integers are modelled as \<open>int\<close>:
  every intermediate value stays far below 2^53, so the double arithmetic is exact.
\<close>

type_synonym jsstring = "16 word list"

definition js :: "string \<Rightarrow> jsstring" where
  "js s = map of_char s"

definition charCode :: "16 word \<Rightarrow> int" where
  "charCode c = uint c"

text \<open>The bitwise operators convert both operands with ToInt32 and work on 32-bit
  two's complement values; a shift count is taken modulo 32; \<open>>>\<close> propagates the sign.\<close>

definition toInt32 :: "int \<Rightarrow> int" where
  "toInt32 x = (x + 2147483648) mod 4294967296 - 2147483648"

definition js_and :: "int \<Rightarrow> int \<Rightarrow> int" where
  "js_and a b = toInt32 a AND toInt32 b"

definition js_or :: "int \<Rightarrow> int \<Rightarrow> int" where
  "js_or a b = toInt32 a OR toInt32 b"

definition js_xor :: "int \<Rightarrow> int \<Rightarrow> int" where
  "js_xor a b = toInt32 a XOR toInt32 b"

definition js_shl :: "int \<Rightarrow> int \<Rightarrow> int" where
  "js_shl a n = toInt32 (toInt32 a * 2 ^ nat (n mod 32))"

definition js_sar :: "int \<Rightarrow> int \<Rightarrow> int" where
  "js_sar a n = toInt32 a div 2 ^ nat (n mod 32)"

text \<open>The remainder operator \<open>%\<close> truncates towards zero: the result has the sign of the
  dividend.\<close>

definition js_rem :: "int \<Rightarrow> int \<Rightarrow> int" where
  "js_rem a b = sgn a * (\<bar>a\<bar> mod \<bar>b\<bar>)"

subsection \<open>Number to string in radix 16, and padStart\<close>

function hexDigitsOf :: "nat \<Rightarrow> jsstring" where
  "hexDigitsOf n =
     (if n < 16 then [js ''0123456789abcdef'' ! n]
      else hexDigitsOf (n div 16) @ [js ''0123456789abcdef'' ! (n mod 16)])"
  by pat_completeness auto
termination
  by (relation "measure (\<lambda>n. n)") auto

declare hexDigitsOf.simps [simp del]

definition toString16 :: "int \<Rightarrow> jsstring" where
  "toString16 n = (if n < 0 then js ''-'' @ hexDigitsOf (nat (- n)) else hexDigitsOf (nat n))"

definition padStart :: "nat \<Rightarrow> 16 word \<Rightarrow> jsstring \<Rightarrow> jsstring" where
  "padStart n c s = replicate (n - length s) c @ s"

subsection \<open>String.prototype.split on a one-character separator\<close>

fun split_on :: "16 word \<Rightarrow> jsstring \<Rightarrow> jsstring list" where
  "split_on d [] = [[]]"
| "split_on d (c # cs) =
     (if c = d then [] # split_on d cs
      else (case split_on d cs of p # ps \<Rightarrow> (c # p) # ps | [] \<Rightarrow> [[c]]))"

subsection \<open>parseInt with radix 16\<close>

text \<open>
  \<open>parseInt(s, 16)\<close> skips leading white space, reads an optional sign, skips a
  \<open>0x\<close>/\<open>0X\<close> prefix, and converts the longest prefix of hexadecimal digits that
  follows, ignoring whatever comes after it. Only when that prefix is empty is the result
  NaN, here \<open>None\<close>.
\<close>

definition isStrWhiteSpace :: "16 word \<Rightarrow> bool" where
  "isStrWhiteSpace c =
     (c \<in> {0x09, 0x0A, 0x0B, 0x0C, 0x0D, 0x20, 0xA0, 0x1680, 0x2028, 0x2029,
            0x202F, 0x205F, 0x3000, 0xFEFF} \<or> (0x2000 \<le> c \<and> c \<le> 0x200A))"

definition hexDigitValue :: "16 word \<Rightarrow> int option" where
  "hexDigitValue c =
     (if 0x30 \<le> c \<and> c \<le> 0x39 then Some (uint c - 0x30)
      else if 0x61 \<le> c \<and> c \<le> 0x66 then Some (uint c - 0x61 + 10)
      else if 0x41 \<le> c \<and> c \<le> 0x46 then Some (uint c - 0x41 + 10)
      else None)"

definition parseInt16 :: "jsstring \<Rightarrow> int option" where
  "parseInt16 s =
     (let s1 = dropWhile isStrWhiteSpace s;
          sign = (case s1 of c # r \<Rightarrow> if c = 0x2D then - 1 else 1 | [] \<Rightarrow> (1::int));
          s2 = (case s1 of c # r \<Rightarrow> if c = 0x2D \<or> c = 0x2B then r else s1 | [] \<Rightarrow> []);
          s3 = (case s2 of a # b # r \<Rightarrow>
                  if a = 0x30 \<and> (b = 0x78 \<or> b = 0x58) then r else s2 | _ \<Rightarrow> s2);
          z = takeWhile (\<lambda>c. hexDigitValue c \<noteq> None) s3
      in if z = [] then None
         else Some (sign * foldl (\<lambda>acc c. acc * 16 + the (hexDigitValue c)) 0 z))"

subsection \<open>TextEncoder and TextDecoder (UTF-8)\<close>

text \<open>
  \<open>new TextEncoder().encode(s)\<close> first reads the code units as Unicode scalar values,
  an unpaired surrogate becoming U+FFFD, and then writes each scalar value in UTF-8.
\<close>

definition isLead :: "16 word \<Rightarrow> bool" where
  "isLead c = (0xD800 \<le> c \<and> c \<le> 0xDBFF)"

definition isTrail :: "16 word \<Rightarrow> bool" where
  "isTrail c = (0xDC00 \<le> c \<and> c \<le> 0xDFFF)"

definition surrogatePairValue :: "16 word \<Rightarrow> 16 word \<Rightarrow> int" where
  "surrogatePairValue c d = 0x10000 + (uint c - 0xD800) * 0x400 + (uint d - 0xDC00)"

fun toScalars :: "jsstring \<Rightarrow> int list" where
  "toScalars [] = []"
| "toScalars [c] = (if isLead c \<or> isTrail c then [0xFFFD] else [uint c])"
| "toScalars (c # d # cs) =
     (if isLead c then
        (if isTrail d
         then surrogatePairValue c d # toScalars cs
         else 0xFFFD # toScalars (d # cs))
      else if isTrail c then 0xFFFD # toScalars (d # cs)
      else uint c # toScalars (d # cs))"

definition utf8_of_scalar :: "int \<Rightarrow> int list" where
  "utf8_of_scalar cp =
     (if cp < 0x80 then [cp]
      else if cp < 0x800 then [0xC0 + cp div 64, 0x80 + cp mod 64]
      else if cp < 0x10000 then
        [0xE0 + cp div 4096, 0x80 + (cp div 64) mod 64, 0x80 + cp mod 64]
      else [0xF0 + cp div 262144, 0x80 + (cp div 4096) mod 64,
            0x80 + (cp div 64) mod 64, 0x80 + cp mod 64])"

definition textEncoder_encode :: "jsstring \<Rightarrow> int list" where
  "textEncoder_encode s = concat (map utf8_of_scalar (toScalars s))"

text \<open>
  The UTF-8 decoder of \<open>new TextDecoder()\<close> (not fatal, BOM not ignored): a state machine
  over the bytes that keeps the code point read so far, the number of continuation bytes
  still needed and the bounds allowed for the next byte. An ill-formed sequence yields
  U+FFFD and the offending byte is read again in the initial state. A leading U+FEFF of
  the decoded text is dropped.
\<close>

function utf8_decode :: "int \<Rightarrow> nat \<Rightarrow> int \<Rightarrow> int \<Rightarrow> int list \<Rightarrow> int list" where
  "utf8_decode cp needed lower upper [] = (if needed \<noteq> 0 then [0xFFFD] else [])"
| "utf8_decode cp needed lower upper (b # bs) =
     (if needed = 0 then
        (if 0 \<le> b \<and> b \<le> 0x7F then b # utf8_decode 0 0 0x80 0xBF bs
         else if 0xC2 \<le> b \<and> b \<le> 0xDF then utf8_decode (b mod 32) 1 0x80 0xBF bs
         else if 0xE0 \<le> b \<and> b \<le> 0xEF then
           utf8_decode (b mod 16) 2 (if b = 0xE0 then 0xA0 else 0x80)
             (if b = 0xED then 0x9F else 0xBF) bs
         else if 0xF0 \<le> b \<and> b \<le> 0xF4 then
           utf8_decode (b mod 8) 3 (if b = 0xF0 then 0x90 else 0x80)
             (if b = 0xF4 then 0x8F else 0xBF) bs
         else 0xFFFD # utf8_decode 0 0 0x80 0xBF bs)
      else if b < lower \<or> upper < b then 0xFFFD # utf8_decode 0 0 0x80 0xBF (b # bs)
      else if needed = 1 then (cp * 64 + b mod 64) # utf8_decode 0 0 0x80 0xBF bs
      else utf8_decode (cp * 64 + b mod 64) (needed - 1) 0x80 0xBF bs)"
  by pat_completeness auto
termination
  by (relation "measure (\<lambda>(cp, needed, lower, upper, bs).
                  2 * length bs + (if needed = 0 then 0 else 1))") auto

definition utf16_of_scalar :: "int \<Rightarrow> jsstring" where
  "utf16_of_scalar cp =
     (if cp < 0x10000 then [word_of_int cp]
      else [word_of_int (0xD800 + (cp - 0x10000) div 0x400),
            word_of_int (0xDC00 + (cp - 0x10000) mod 0x400)])"

definition textDecoder_decode :: "int list \<Rightarrow> jsstring" where
  "textDecoder_decode bytes =
     (let cps = utf8_decode 0 0 0x80 0xBF bytes;
          cps' = (case cps of c # r \<Rightarrow> if c = 0xFEFF then r else cps | [] \<Rightarrow> [])
      in concat (map utf16_of_scalar cps'))"

text \<open>\<open>new Uint8Array(values)\<close> converts every element to a byte: a number modulo 256,
  \<open>undefined\<close> (here \<open>None\<close>) to 0.\<close>

definition uint8Array :: "int option list \<Rightarrow> int list" where
  "uint8Array vs = map (\<lambda>v. case v of None \<Rightarrow> 0 | Some x \<Rightarrow> x mod 256) vs"

section \<open>QuantumLayeredEncoder\<close>

datatype error =
    KeyRequired | InvalidFormat | ChecksumFailed | InvalidHexData | InvalidHexCharacter
  | DecodingFailed

subsection \<open>Substitution matrices\<close>

definition createSubstitutionMatrix :: "int list" where
  "createSubstitutionMatrix = map (\<lambda>i. js_rem (int i * 17 + 42) 256) [0..<256]"

definition substitutionMatrix :: "int list" where
  "substitutionMatrix = createSubstitutionMatrix"

text \<open>\<open>new Array(256)\<close> has 256 empty slots, \<open>None\<close> here; the loop fills the slot
  \<open>substitutionMatrix[i]\<close> with \<open>i\<close>.\<close>

definition createInverseMatrix :: "int option list" where
  "createInverseMatrix =
     fold (\<lambda>i inverse. inverse[nat (substitutionMatrix ! i) := Some (int i)])
       [0..<256] (replicate 256 None)"

definition inverseMatrix :: "int option list" where
  "inverseMatrix = createInverseMatrix"

subsection \<open>Key derivation\<close>

definition hashStep :: "int \<Rightarrow> int \<Rightarrow> int" where
  "hashStep hash x = js_and (js_shl hash 5 + hash + x) 0xFFFFFFFF"

definition keyHash :: "jsstring \<Rightarrow> int" where
  "keyHash key = foldl (\<lambda>hash c. hashStep hash (charCode c)) 5381 key"

fun expandKey :: "int \<Rightarrow> nat list \<Rightarrow> int list" where
  "expandKey hash [] = []"
| "expandKey hash (i # is) =
     (let hash' = hashStep hash (int i + 7919)
      in js_and hash' 0xFF # expandKey hash' is)"

definition keyDerivation :: "jsstring option \<Rightarrow> error + int list" where
  "keyDerivation key =
     (case key of
        None \<Rightarrow> Inl KeyRequired
      | Some k \<Rightarrow>
          if length k = 0 then Inl KeyRequired
          else Inr (expandKey (keyHash k) [0..<256]))"

subsection \<open>The four layers\<close>

text \<open>\<open>derivedKey\<close> always comes from \<open>keyDerivation\<close> and has 256 elements, so the
  indices \<open>position % derivedKey.length\<close> are in range.\<close>

definition scrambleByte :: "int \<Rightarrow> nat \<Rightarrow> int list \<Rightarrow> int" where
  "scrambleByte byte position derivedKey =
     (let result = substitutionMatrix ! nat byte;
          result = js_xor result (derivedKey ! (position mod length derivedKey));
          rotateAmount = int (position mod 8);
          result = js_and (js_or (js_shl result rotateAmount)
                                 (js_sar result (8 - rotateAmount))) 0xFF;
          result = js_and (result + derivedKey ! ((position * 7) mod length derivedKey)) 0xFF
      in result)"

definition unscrambleByte :: "int \<Rightarrow> nat \<Rightarrow> int list \<Rightarrow> int option" where
  "unscrambleByte byte position derivedKey =
     (let result = js_and (byte - derivedKey ! ((position * 7) mod length derivedKey) + 256) 0xFF;
          rotateAmount = int (position mod 8);
          result = js_and (js_or (js_sar result rotateAmount)
                                 (js_shl result (8 - rotateAmount))) 0xFF;
          result = js_xor result (derivedKey ! (position mod length derivedKey))
      in inverseMatrix ! nat result)"

subsection \<open>Framing and checksum\<close>

definition calculateChecksum :: "jsstring \<Rightarrow> int list \<Rightarrow> jsstring" where
  "calculateChecksum data derivedKey =
     (let checksum = foldl (\<lambda>checksum c. js_rem (checksum * 31 + charCode c) 65536) 0 data;
          checksum = foldl (\<lambda>checksum i. js_rem (checksum + derivedKey ! i * (int i + 1)) 65536)
                       checksum [0..<min (length derivedKey) 16]
      in padStart 4 0x30 (toString16 checksum))"

definition bytesToHex :: "int list \<Rightarrow> int list \<Rightarrow> jsstring" where
  "bytesToHex bytes derivedKey =
     (let hex = concat (map (\<lambda>b. padStart 2 0x30 (toString16 b)) bytes)
      in hex @ js ''.'' @ calculateChecksum hex derivedKey)"

fun parsePairs :: "jsstring \<Rightarrow> error + int list" where
  "parsePairs (a # b # rest) =
     (case parseInt16 [a, b] of
        None \<Rightarrow> Inl InvalidHexCharacter
      | Some byte \<Rightarrow>
          (case parsePairs rest of Inl e \<Rightarrow> Inl e | Inr bytes \<Rightarrow> Inr (byte # bytes)))"
| "parsePairs _ = Inr []"

definition hexToBytes :: "jsstring \<Rightarrow> int list \<Rightarrow> error + int list" where
  "hexToBytes encoded derivedKey =
     (case split_on 0x2E encoded of
        [hexData, checksum] \<Rightarrow>
          if checksum \<noteq> calculateChecksum hexData derivedKey then Inl ChecksumFailed
          else if length hexData mod 2 \<noteq> 0 then Inl InvalidHexData
          else parsePairs hexData
      | _ \<Rightarrow> Inl InvalidFormat)"

subsection \<open>encode and decode\<close>

text \<open>An argument that is \<open>undefined\<close> or \<open>null\<close> is \<open>None\<close>. \<open>decode\<close> catches every
  error raised inside it and raises the single error "Decoding failed" instead.\<close>

definition encode :: "jsstring option \<Rightarrow> jsstring option \<Rightarrow> error + jsstring" where
  "encode text key =
     (case text of
        None \<Rightarrow> Inr []
      | Some t \<Rightarrow>
          if t = [] then Inr []
          else (case keyDerivation key of
                  Inl e \<Rightarrow> Inl e
                | Inr derivedKey \<Rightarrow>
                    let textBytes = textEncoder_encode t;
                        encoded = map (\<lambda>i. scrambleByte (textBytes ! i) i derivedKey)
                                    [0..<length textBytes]
                    in Inr (bytesToHex encoded derivedKey)))"

definition decode :: "jsstring option \<Rightarrow> jsstring option \<Rightarrow> error + jsstring" where
  "decode encodedText key =
     (case encodedText of
        None \<Rightarrow> Inr []
      | Some t \<Rightarrow>
          if t = [] then Inr []
          else (case keyDerivation key of
                  Inl e \<Rightarrow> Inl DecodingFailed
                | Inr derivedKey \<Rightarrow>
                    (case hexToBytes t derivedKey of
                       Inl e \<Rightarrow> Inl DecodingFailed
                     | Inr decodedBytes \<Rightarrow>
                         let original = map (\<lambda>i. unscrambleByte (decodedBytes ! i) i derivedKey)
                                          [0..<length decodedBytes]
                         in Inr (textDecoder_decode (uint8Array original)))))"

section \<open>Detection engine\<close>

text \<open>
  The confidence of a candidate is a sum of a few of the constants 0.5, 0.1, 0.2 and 0.3,
  capped at 1. It is modelled with exact arithmetic on \<open>real\<close>; the code adds doubles, whose
  rounding moves a sum by far less than the distance between any two of the values compared
  below.
\<close>

subsection \<open>Patterns\<close>

text \<open>
  The regular expressions of the detection code, each as a predicate on the whole string
  (all of them are anchored at both ends unless said otherwise). White space in a pattern
  and in \<open>trim\<close> is the set \<open>isStrWhiteSpace\<close>; letters and digits are the ASCII ones.
\<close>

definition isUpper :: "16 word \<Rightarrow> bool" where
  "isUpper c = (0x41 \<le> c \<and> c \<le> 0x5A)"

definition isLower :: "16 word \<Rightarrow> bool" where
  "isLower c = (0x61 \<le> c \<and> c \<le> 0x7A)"

definition isDigit :: "16 word \<Rightarrow> bool" where
  "isDigit c = (0x30 \<le> c \<and> c \<le> 0x39)"

definition isHexDigit :: "16 word \<Rightarrow> bool" where
  "isHexDigit c = (isDigit c \<or> (0x41 \<le> c \<and> c \<le> 0x46) \<or> (0x61 \<le> c \<and> c \<le> 0x66))"

definition isBase64Char :: "16 word \<Rightarrow> bool" where
  "isBase64Char c = (isUpper c \<or> isLower c \<or> isDigit c \<or> c = 0x2B \<or> c = 0x2F)"

definition trim :: "jsstring \<Rightarrow> jsstring" where
  "trim s = rev (dropWhile isStrWhiteSpace (rev (dropWhile isStrWhiteSpace s)))"

text \<open>\<open>/^[A-Za-z0-9+/]*={0,2}$/\<close>: characters of the alphabet, then at most two \<open>=\<close>.\<close>

definition base64Pattern :: "jsstring \<Rightarrow> bool" where
  "base64Pattern s = (dropWhile isBase64Char s \<in> {[], [0x3D], [0x3D, 0x3D]})"

text \<open>
  One or more groups, each of exactly \<open>n\<close> characters of a class followed by any amount of
  white space: the hex pattern with the class \<open>[0-9a-fA-F]\<close> and \<open>n = 2\<close>, the binary
  pattern with the class \<open>[01]\<close> and \<open>n = 8\<close>. \<open>k\<close> is the number of characters the current
  group still needs; it starts at \<open>n\<close>.
\<close>

fun groupsPattern :: "nat \<Rightarrow> (16 word \<Rightarrow> bool) \<Rightarrow> nat \<Rightarrow> jsstring \<Rightarrow> bool" where
  "groupsPattern n P k [] = (k = 0)"
| "groupsPattern n P k (c # cs) =
     (if P c then groupsPattern n P (if k = 0 then n - 1 else k - 1) cs
      else if isStrWhiteSpace c \<and> k = 0 then groupsPattern n P 0 cs
      else False)"

definition hexPattern :: "jsstring \<Rightarrow> bool" where
  "hexPattern s = groupsPattern 2 isHexDigit 2 s"

definition binaryPattern :: "jsstring \<Rightarrow> bool" where
  "binaryPattern s = groupsPattern 8 (\<lambda>c. c = 0x30 \<or> c = 0x31) 8 s"

text \<open>
  One or more groups, each of two or three digits followed by any amount of white space:
  runs of at least two digits, separated by white space. \<open>k\<close> is the number of digits the
  current run still needs; it starts at 2.
\<close>

fun digitGroupsPattern :: "nat \<Rightarrow> jsstring \<Rightarrow> bool"
  and whiteThenDigits :: "jsstring \<Rightarrow> bool" where
  "digitGroupsPattern k [] = (k = 0)"
| "digitGroupsPattern k (c # cs) =
     (if isDigit c then digitGroupsPattern (k - 1) cs
      else if isStrWhiteSpace c \<and> k = 0 then whiteThenDigits cs
      else False)"
| "whiteThenDigits [] = True"
| "whiteThenDigits (c # cs) =
     (if isStrWhiteSpace c then whiteThenDigits cs
      else if isDigit c then digitGroupsPattern 1 cs
      else False)"

text \<open>\<open>/%[0-9A-Fa-f]{2}/\<close> and \<open>/=[0-9A-Fa-f]{2}/\<close>, not anchored: somewhere the escape
  character is followed by two hexadecimal digits.\<close>

fun escapePattern :: "16 word \<Rightarrow> jsstring \<Rightarrow> bool" where
  "escapePattern e (a # b # c # cs) =
     ((a = e \<and> isHexDigit b \<and> isHexDigit c) \<or> escapePattern e (b # c # cs))"
| "escapePattern e _ = False"

text \<open>The Morse pattern: one or more characters, each a dot, a hyphen, white space or a
  slash. The pattern for the decoded result: only characters from U+0020 to U+007E and white
  space.\<close>

definition morsePattern :: "jsstring \<Rightarrow> bool" where
  "morsePattern s =
     (s \<noteq> [] \<and> (\<forall>c\<in>set s. c = 0x2E \<or> c = 0x2D \<or> isStrWhiteSpace c \<or> c = 0x2F))"

definition printablePattern :: "jsstring \<Rightarrow> bool" where
  "printablePattern s = (\<forall>c\<in>set s. (0x20 \<le> c \<and> c \<le> 0x7E) \<or> isStrWhiteSpace c)"

subsection \<open>Settings and results\<close>

record settings =
  autoDetect :: bool
  detectionSensitivity :: string
  enabledEncodings :: "string list"
  strictValidation :: bool
  showConfidence :: bool

datatype encoding =
  JWT | Base64 | Base32 | Base85 | Hex | Binary | Url | Morse | Ascii | Html
  | QuotedPrintable | Compress | Rot13

text \<open>An element of \<open>results\<close>: the object with the keys \<open>result\<close>, \<open>type\<close>,
  \<open>confidence\<close> and \<open>originalType\<close>.\<close>

record detection =
  entryResult :: jsstring
  entryType :: string
  entryConfidence :: real
  entryOriginalType :: encoding


subsection \<open>atob\<close>

text \<open>
  The platform's \<open>atob\<close> (forgiving base64 decoding): ASCII white space is removed; when the
  length is a multiple of 4, one or two trailing \<open>=\<close> are removed; a length that leaves
  remainder 1, or any character outside the alphabet, is an error; every character gives 6
  bits and every full 8 bits give one code unit of the result, left-over bits are dropped.
\<close>

definition base64Value :: "16 word \<Rightarrow> nat option" where
  "base64Value c =
     (if isUpper c then Some (unat c - 0x41)
      else if isLower c then Some (unat c - 0x61 + 26)
      else if isDigit c then Some (unat c - 0x30 + 52)
      else if c = 0x2B then Some 62
      else if c = 0x2F then Some 63
      else None)"

fun sextetsToBytes :: "nat list \<Rightarrow> nat list" where
  "sextetsToBytes (a # b # c # d # rest) =
     (a * 4 + b div 16) # ((b mod 16) * 16 + c div 4) # ((c mod 4) * 64 + d) # sextetsToBytes rest"
| "sextetsToBytes [a, b, c] = [a * 4 + b div 16, (b mod 16) * 16 + c div 4]"
| "sextetsToBytes [a, b] = [a * 4 + b div 16]"
| "sextetsToBytes _ = []"

definition atob :: "jsstring \<Rightarrow> jsstring option" where
  "atob s =
     (let d = filter (\<lambda>c. c \<notin> {0x09, 0x0A, 0x0C, 0x0D, 0x20}) s;
          d = (if length d mod 4 = 0
               then (if 2 \<le> length d \<and> drop (length d - 2) d = [0x3D, 0x3D] then take (length d - 2) d
                     else if 1 \<le> length d \<and> drop (length d - 1) d = [0x3D] then take (length d - 1) d
                     else d)
               else d)
      in if length d mod 4 = 1 then None
         else if \<exists>c\<in>set d. base64Value c = None then None
         else Some (map of_nat (sextetsToBytes (map (\<lambda>c. the (base64Value c)) d))))"

subsection \<open>Settings, encodings and decoders\<close>

definition defaultSettings :: settings where
  "defaultSettings =
     \<lparr>autoDetect = True, detectionSensitivity = ''medium'', enabledEncodings = [],
      strictValidation = False, showConfidence = False\<rparr>"

fun typeTag :: "encoding \<Rightarrow> string" where
  "typeTag JWT = ''jwt''"
| "typeTag Base64 = ''base64''"
| "typeTag Base32 = ''base32''"
| "typeTag Base85 = ''base85''"
| "typeTag Hex = ''hex''"
| "typeTag Binary = ''binary''"
| "typeTag Url = ''url''"
| "typeTag Morse = ''morse''"
| "typeTag Ascii = ''ascii''"
| "typeTag Html = ''html''"
| "typeTag QuotedPrintable = ''quoted-printable''"
| "typeTag Compress = ''compress''"
| "typeTag Rot13 = ''rot13''"

fun typeName :: "encoding \<Rightarrow> string" where
  "typeName JWT = ''JWT (JSON Web Token)''"
| "typeName Base64 = ''Base64''"
| "typeName Base32 = ''Base32''"
| "typeName Base85 = ''Base85''"
| "typeName Hex = ''Hexadecimal''"
| "typeName Binary = ''Binary''"
| "typeName Url = ''URL Encoding''"
| "typeName Morse = ''Morse Code''"
| "typeName Ascii = ''ASCII Codes''"
| "typeName Html = ''HTML Entities''"
| "typeName QuotedPrintable = ''Quoted-Printable''"
| "typeName Compress = ''LZ Compressed''"
| "typeName Rot13 = ''ROT13''"

definition encodingTests :: "encoding list" where
  "encodingTests =
     [JWT, Base64, Base32, Base85, Hex, Binary, Url, Morse, Ascii, Html, QuotedPrintable,
      Compress, Rot13]"

text \<open>
  The decoders other than base64 and ROT13 are left open, as the fields of a record: each
  takes the input and either returns a string or raises an exception (\<open>None\<close>), which the
  loop catches. JSON, the document, the gzip stream and \<open>decodeURIComponent\<close> belong to the
  platform; the hex, binary and ASCII-code branches read tokens of any length with
  \<open>parseInt\<close>, that is through doubles. The loop uses what a decoder returns only to
  compare it with the empty string and with the input and to score it, so the statements
  below are proved for every value of these fields. The pattern of the base85 test is left
  open as well: as written, its character class contains a range from the backslash down to
  the semicolon.
\<close>

record decoders =
  decodeJWT :: "jsstring \<Rightarrow> jsstring option"
  decodeBase32 :: "jsstring \<Rightarrow> jsstring option"
  base85Test :: "jsstring \<Rightarrow> bool"
  decodeBase85 :: "jsstring \<Rightarrow> jsstring option"
  decodeHex :: "jsstring \<Rightarrow> jsstring option"
  decodeBinary :: "jsstring \<Rightarrow> jsstring option"
  decodeURIComponent :: "jsstring \<Rightarrow> jsstring option"
  decodeMorse :: "jsstring \<Rightarrow> jsstring option"
  decodeAscii :: "jsstring \<Rightarrow> jsstring option"
  decodeHtml :: "jsstring \<Rightarrow> jsstring option"
  decodeQuotedPrintable :: "jsstring \<Rightarrow> jsstring option"
  decompressLZ :: "jsstring \<Rightarrow> jsstring option"

definition rot13 :: "jsstring \<Rightarrow> jsstring" where
  "rot13 input =
     map (\<lambda>char. if isUpper char \<or> isLower char
                 then (let base = (if char \<le> 0x5A then 65 else 97)
                       in word_of_int ((uint char - base + 13) mod 26 + base))
                 else char) input"

text \<open>\<open>ErrorHandler.validateInput(input, 'base64')\<close>: \<open>True\<close> when it does not throw.\<close>

definition validateInputBase64 :: "jsstring \<Rightarrow> bool" where
  "validateInputBase64 input =
     (\<not> length input > 1048576 \<and> base64Pattern input \<and> length input mod 4 = 0)"

fun decodeAs :: "decoders \<Rightarrow> encoding \<Rightarrow> jsstring \<Rightarrow> jsstring option" where
  "decodeAs d JWT input = decodeJWT d input"
| "decodeAs d Base64 input = (if validateInputBase64 input then atob input else None)"
| "decodeAs d Base32 input = decodeBase32 d input"
| "decodeAs d Base85 input = decodeBase85 d input"
| "decodeAs d Hex input = decodeHex d input"
| "decodeAs d Binary input = decodeBinary d input"
| "decodeAs d Url input = decodeURIComponent d input"
| "decodeAs d Morse input = decodeMorse d input"
| "decodeAs d Ascii input = decodeAscii d input"
| "decodeAs d Html input = decodeHtml d input"
| "decodeAs d QuotedPrintable input = decodeQuotedPrintable d input"
| "decodeAs d Compress input = decompressLZ d input"
| "decodeAs d Rot13 input = Some (rot13 input)"

subsection \<open>DetectionEngine\<close>

definition calculateConfidence :: "jsstring \<Rightarrow> jsstring \<Rightarrow> encoding \<Rightarrow> real" where
  "calculateConfidence input result type =
     (if result = [] \<or> result = input then 0
      else
        let confidence = 0.5;
            confidence = (if length input > 10 then confidence + 0.1 else confidence);
            confidence = (if length input > 50 then confidence + 0.1 else confidence);
            confidence =
              (case type of
                 Base64 \<Rightarrow> if length input mod 4 = 0 \<and> base64Pattern input
                           then confidence + 0.3 else confidence
               | Hex \<Rightarrow> if hexPattern (trim input) then confidence + 0.3 else confidence
               | Url \<Rightarrow> if 0x25 \<in> set input \<and> escapePattern 0x25 input
                        then confidence + 0.2 else confidence
               | Morse \<Rightarrow> if morsePattern input \<and> 0x2E \<in> set input \<and> 0x2D \<in> set input
                          then confidence + 0.3 else confidence
               | _ \<Rightarrow> confidence);
            confidence = (if printablePattern result then confidence + 0.1 else confidence)
        in min confidence 1.0)"

text \<open>\<open>minConfidence\<close> is looked up from the sensitivity, with 0.5 for an unknown one, and
  then never used.\<close>

definition shouldAttemptDecoding :: "jsstring \<Rightarrow> encoding \<Rightarrow> settings \<Rightarrow> bool" where
  "shouldAttemptDecoding input type settings =
     (if \<not> autoDetect settings then False
      else if length (enabledEncodings settings) > 0
              \<and> typeTag type \<notin> set (enabledEncodings settings) then False
      else
        let minConfidence :: real =
              (case map_of [(''strict'', 0.8), (''medium'', 0.5), (''loose'', 0.2)]
                      (detectionSensitivity settings) of
                 Some v \<Rightarrow> v | None \<Rightarrow> 0.5)
        in (case type of
              Base64 \<Rightarrow> base64Pattern input \<and> length input mod 4 = 0
            | Hex \<Rightarrow> hexPattern (trim input)
            | Binary \<Rightarrow> binaryPattern (trim input)
            | Url \<Rightarrow> 0x25 \<in> set input \<and> escapePattern 0x25 input
            | Morse \<Rightarrow> morsePattern input
            | _ \<Rightarrow> True))"


subsection \<open>detectAndDecode\<close>

fun encodingTest :: "decoders \<Rightarrow> encoding \<Rightarrow> jsstring \<Rightarrow> bool" where
  "encodingTest d JWT input = (0x2E \<in> set input \<and> length (split_on 0x2E input) = 3)"
| "encodingTest d Base64 input = (base64Pattern input \<and> length input mod 4 = 0)"
| "encodingTest d Base32 input =
     (\<forall>c\<in>set input. isUpper c \<or> isLower c \<or> (0x32 \<le> c \<and> c \<le> 0x37) \<or> c = 0x3D)"
| "encodingTest d Base85 input = base85Test d input"
| "encodingTest d Hex input = hexPattern (trim input)"
| "encodingTest d Binary input = binaryPattern (trim input)"
| "encodingTest d Url input = (0x25 \<in> set input \<and> escapePattern 0x25 input)"
| "encodingTest d Morse input = morsePattern input"
| "encodingTest d Ascii input = digitGroupsPattern 2 (trim input)"
| "encodingTest d Html input = (0x26 \<in> set input \<and> 0x3B \<in> set input)"
| "encodingTest d QuotedPrintable input = (0x3D \<in> set input \<and> escapePattern 0x3D input)"
| "encodingTest d Compress input = base64Pattern input"
| "encodingTest d Rot13 input = (\<exists>c\<in>set input. isLower c \<or> isUpper c)"

text \<open>The variables of the loop.\<close>

record loopState =
  bestResult :: "jsstring option"
  bestType :: "string option"
  bestConfidence :: real
  results :: "detection list"

definition attempt :: "decoders \<Rightarrow> settings \<Rightarrow> jsstring \<Rightarrow> loopState \<Rightarrow> encoding \<Rightarrow> loopState" where
  "attempt d settings input st type =
     (if \<not> shouldAttemptDecoding input type settings then st
      else if \<not> encodingTest d type input then st
      else
        (case decodeAs d type input of
           None \<Rightarrow> st
         | Some result \<Rightarrow>
             if result \<noteq> [] \<and> result \<noteq> input then
               let confidence = calculateConfidence input result type;
                   st = st\<lparr>results := results st @
                          [\<lparr>entryResult = result, entryType = typeName type,
                            entryConfidence = confidence, entryOriginalType = type\<rparr>]\<rparr>
               in if confidence > bestConfidence st
                  then st\<lparr>bestResult := Some result, bestType := Some (typeName type),
                          bestConfidence := confidence\<rparr>
                  else st
             else st))"

datatype outcome =
    NoInput
  | InvalidInput
  | NoEncodingDetected "detection list"
  | Decoded jsstring string real "detection list"

definition detectAndDecode :: "decoders \<Rightarrow> settings \<Rightarrow> jsstring \<Rightarrow> outcome" where
  "detectAndDecode d settings input =
     (if trim input = [] then NoInput
      else if length input > 1048576 then InvalidInput
      else
        let st = foldl (attempt d settings input)
                   \<lparr>bestResult = None, bestType = None, bestConfidence = 0, results = []\<rparr>
                   encodingTests
        in (case bestResult st of
              Some r \<Rightarrow> (if r \<noteq> [] then Decoded r (the (bestType st)) (bestConfidence st) (results st)
                        else NoEncodingDetected (results st))
            | None \<Rightarrow> NoEncodingDetected (results st)))"

section \<open>Notions used in the statements\<close>

text \<open>A derived key as \<open>keyDerivation\<close> produces it: 256 bytes.\<close>

definition validKey :: "int list \<Rightarrow> bool" where
  "validKey dk = (length dk = 256 \<and> (\<forall>k\<in>set dk. 0 \<le> k \<and> k < 256))"

text \<open>
  The key stream as the specification words it, with the mixing step left open:
  the accumulator starts at 5381, every character of the passphrase is folded in, and for
  each index \<open>i\<close> in 0..255 the accumulator is updated with \<open>i + 7919\<close> and its low byte is
  emitted. \<open>claimedStep\<close> is the step as the specification writes it,
  \<open>acc*33 + acc + x\<close>; \<open>djb2Step\<close> is \<open>acc*32 + acc + x\<close>. Both truncate to 32 bits.
\<close>

definition claimedStep :: "int \<Rightarrow> int \<Rightarrow> int" where
  "claimedStep acc x = (acc * 33 + acc + x) mod 4294967296"

definition djb2Step :: "int \<Rightarrow> int \<Rightarrow> int" where
  "djb2Step acc x = (acc * 32 + acc + x) mod 4294967296"

fun keystreamFrom :: "(int \<Rightarrow> int \<Rightarrow> int) \<Rightarrow> int \<Rightarrow> nat list \<Rightarrow> int list" where
  "keystreamFrom step acc [] = []"
| "keystreamFrom step acc (i # is) =
     (let acc' = step acc (int i + 7919) in acc' mod 256 # keystreamFrom step acc' is)"

definition specKeystream :: "(int \<Rightarrow> int \<Rightarrow> int) \<Rightarrow> jsstring \<Rightarrow> int list" where
  "specKeystream step passphrase =
     keystreamFrom step (foldl (\<lambda>acc c. step acc (charCode c)) 5381 passphrase) [0..<256]"

text \<open>
  Text that UTF-8 can carry: every surrogate code unit is part of a pair. The scalar values
  are the code points outside the surrogate range.
\<close>

definition validScalar :: "int \<Rightarrow> bool" where
  "validScalar cp = (0 \<le> cp \<and> cp < 0x110000 \<and> \<not> (0xD800 \<le> cp \<and> cp \<le> 0xDFFF))"

fun wellFormedUTF16 :: "jsstring \<Rightarrow> bool" where
  "wellFormedUTF16 [] = True"
| "wellFormedUTF16 [c] = (\<not> isLead c \<and> \<not> isTrail c)"
| "wellFormedUTF16 (c # d # cs) =
     (if isLead c then isTrail d \<and> wellFormedUTF16 cs
      else \<not> isTrail c \<and> wellFormedUTF16 (d # cs))"

text \<open>\<open>decode(encode(text, key), key)\<close>.\<close>

definition roundTrip :: "jsstring option \<Rightarrow> jsstring option \<Rightarrow> error + jsstring" where
  "roundTrip text key =
     (case encode text key of Inl e \<Rightarrow> Inl e | Inr frame \<Rightarrow> decode (Some frame) key)"

text \<open>What \<open>detectAndDecode\<close> shows: the best result, and the accepted results.\<close>

fun best :: "outcome \<Rightarrow> (jsstring \<times> string \<times> real) option" where
  "best (Decoded r t c rs) = Some (r, t, c)"
| "best _ = None"

fun acceptedResults :: "outcome \<Rightarrow> detection list" where
  "acceptedResults (Decoded r t c rs) = rs"
| "acceptedResults (NoEncodingDetected rs) = rs"
| "acceptedResults _ = []"

text \<open>The invariant of the detection loop: every accepted result was decoded from the
  input by its encoding, is not empty and differs from the input, and carries the confidence
  computed for it; the best result, when there is one, is one of them.\<close>

definition recorded :: "decoders \<Rightarrow> jsstring \<Rightarrow> loopState \<Rightarrow> bool" where
  "recorded d input st =
     ((\<forall>e\<in>set (results st).
          entryResult e \<noteq> [] \<and> entryResult e \<noteq> input
        \<and> decodeAs d (entryOriginalType e) input = Some (entryResult e)
        \<and> entryType e = typeName (entryOriginalType e)
        \<and> entryConfidence e = calculateConfidence input (entryResult e) (entryOriginalType e))
      \<and> (case bestResult st of
            None \<Rightarrow> bestConfidence st = 0
          | Some r \<Rightarrow> \<exists>e\<in>set (results st).
                r = entryResult e \<and> bestType st = Some (entryType e)
              \<and> bestConfidence st = entryConfidence e))"

section \<open>The 32-bit operators on small values\<close>

lemma toInt32_id: "- 2147483648 \<le> x \<Longrightarrow> x < 2147483648 \<Longrightarrow> toInt32 x = x"
  by (simp add: toInt32_def)

lemma toInt32_small: "0 \<le> x \<Longrightarrow> x < 65536 \<Longrightarrow> toInt32 x = x"
  by (simp add: toInt32_def)

lemma toInt32_mod: "toInt32 x mod 4294967296 = x mod 4294967296"
  unfolding toInt32_def by (simp add: mod_diff_left_eq)

lemma and_255: "(y::int) AND 255 = y mod 256"
  using take_bit_eq_mask[of 8 y] take_bit_eq_mod[of 8 y] by (simp add: mask_eq_exp_minus_1)

lemma js_and_FF: "js_and x 0xFF = x mod 256"
proof -
  have "js_and x 0xFF = toInt32 x mod 256"
    by (simp add: js_and_def toInt32_id and_255)
  also have "\<dots> = (toInt32 x mod 4294967296) mod 256"
    by (simp add: mod_mod_cancel)
  also have "\<dots> = x mod 256"
    by (simp add: toInt32_mod mod_mod_cancel)
  finally show ?thesis .
qed

lemma js_and_FFFFFFFF: "js_and x 0xFFFFFFFF = toInt32 x"
  by (simp add: js_and_def toInt32_def)

lemma js_rem_nonneg: "0 \<le> a \<Longrightarrow> 0 < b \<Longrightarrow> js_rem a b = a mod b"
  by (cases "a = 0") (simp_all add: js_rem_def)

lemma or_shift: "0 \<le> b \<Longrightarrow> b < 2 ^ n \<Longrightarrow> (a * 2 ^ n) OR b = a * 2 ^ n + (b::int)"
proof -
  assume "0 \<le> b" "b < 2 ^ n"
  then have tb: "take_bit n b = b" by (simp add: take_bit_eq_mod)
  have "concat_bit n b a = take_bit n b OR push_bit n a" by (simp add: concat_bit_def)
  moreover have "concat_bit n b a = take_bit n b + push_bit n a" by (simp add: concat_bit_eq)
  ultimately show ?thesis using tb by (simp add: push_bit_eq_mult or.commute add.commute)
qed

lemma xor_byte_range:
  assumes "0 \<le> a" "a < 256" "0 \<le> b" "b < 256"
  shows "0 \<le> a XOR b \<and> a XOR b < (256::int)"
proof -
  have "take_bit 8 (a XOR b) = take_bit 8 a XOR take_bit 8 b" by (rule take_bit_xor)
  moreover have "take_bit 8 a = a" "take_bit 8 b = b" using assms by (simp_all add: take_bit_eq_mod)
  ultimately have "a XOR b = take_bit 8 (a XOR b)" by simp
  then have "a XOR b = (a XOR b) mod 256" by (simp add: take_bit_eq_mod)
  then show ?thesis
    using pos_mod_bound [of 256 "a XOR b"] pos_mod_sign [of 256 "a XOR b"] by linarith
qed

lemma js_xor_byte:
  assumes "0 \<le> a" "a < 256" "0 \<le> b" "b < 256"
  shows "js_xor a b = a XOR b"
  using assms by (simp add: js_xor_def toInt32_id)

lemma bound_ab: "0 \<le> lo \<Longrightarrow> lo < A \<Longrightarrow> 0 \<le> hi \<Longrightarrow> hi < B \<Longrightarrow> lo * B + hi < A * (B::int)"
proof -
  assume a: "0 \<le> lo" "lo < A" "0 \<le> hi" "hi < B"
  then have "lo + 1 \<le> A" "0 < B" by auto
  then have "(lo + 1) * B \<le> A * B" by (intro mult_right_mono) auto
  then show ?thesis using a by (simp add: algebra_simps)
qed

lemma rot_arith1: 
  assumes "0 \<le> lo" "lo < A" "0 \<le> hi" "hi < B"
  shows "((hi * A + lo) * B + hi) mod (A * B) = lo * B + (hi::int)"
proof -
  have "(hi * A + lo) * B + hi = (lo * B + hi) + hi * (A * B)" by (simp add: algebra_simps)
  then have "((hi * A + lo) * B + hi) mod (A * B) = (lo * B + hi) mod (A * B)"
    by (simp only: mod_mult_self1)
  moreover have "0 \<le> lo * B + hi" using assms by auto
  ultimately show ?thesis using bound_ab [OF assms] by simp
qed

lemma rot_arith2:
  assumes "0 \<le> lo" "lo < A" "0 \<le> hi" "hi < B"
  shows "(lo * B + hi) div B = lo" "(lo * B + hi) mod B = (hi::int)"
  using assms by simp_all

lemma div_lt_mult:
  fixes x :: int
  assumes "x < B * A" "0 < A"
  shows "x div A < B"
proof (rule ccontr)
  assume "\<not> x div A < B"
  then have "B * A \<le> x div A * A" using assms(2) by (intro mult_right_mono) auto
  moreover have "x div A * A \<le> x"
    using div_mult_mod_eq [of x A] pos_mod_sign [OF assms(2), of x] by linarith
  ultimately show False using assms(1) by linarith
qed

text \<open>Splitting a byte into its upper \<open>r\<close> and lower \<open>s\<close> bits, \<open>r + s = 8\<close>.\<close>

lemma split_byte:
  fixes x :: int
  assumes "0 \<le> x" "x < 256" "r + s = 8"
  shows "0 \<le> x mod 2 ^ s" "x mod 2 ^ s < 2 ^ s"
        "0 \<le> x div 2 ^ s" "x div 2 ^ s < 2 ^ r"
        "(2::int) ^ s * 2 ^ r = 256"
proof -
  show e: "(2::int) ^ s * 2 ^ r = 256"
    using assms(3) by (simp add: power_add [symmetric] add.commute)
  show "0 \<le> x mod 2 ^ s" "x mod 2 ^ s < 2 ^ s" by simp_all
  show "0 \<le> x div 2 ^ s" using assms by (simp add: pos_imp_zdiv_nonneg_iff)
  have "x < 2 ^ r * 2 ^ s" using assms e by (simp add: mult.commute)
  then show "x div 2 ^ s < 2 ^ r"
    by (rule div_lt_mult) simp
qed

lemma rot_gen:
  assumes "0 \<le> x" "x < 256" "r + s = 8"
  shows "js_and (js_or (js_shl x (int r)) (js_sar x (int s))) 0xFF
         = (x mod 2 ^ s) * 2 ^ r + x div 2 ^ s"
proof -
  note sb = split_byte [OF assms]
  have rs: "r \<le> 8" "s \<le> 8" using assms by simp_all
  have p: "(2::int) ^ r \<le> 256" "(2::int) ^ s \<le> 256"
    using power_increasing [of r 8 "2::int"] power_increasing [of s 8 "2::int"] rs
    by simp_all
  have "x * 2 ^ r \<le> 255 * 256"
    using assms p by (intro mult_mono) auto
  then have xr: "x * 2 ^ r < 65536" "0 \<le> x * 2 ^ r" using assms by simp_all
  have shl: "js_shl x (int r) = x * 2 ^ r"
    using assms rs xr by (simp add: js_shl_def toInt32_small)
  have sar: "js_sar x (int s) = x div 2 ^ s"
    using assms rs by (simp add: js_sar_def toInt32_small)
  have "js_or (x * 2 ^ r) (x div 2 ^ s) = (x * 2 ^ r) OR (x div 2 ^ s)"
  proof -
    have "x div 2 ^ s < 65536" using sb(4) p(1) by linarith
    then show ?thesis using xr sb(3) by (simp add: js_or_def toInt32_small)
  qed
  also have "\<dots> = x * 2 ^ r + x div 2 ^ s"
    using sb(3,4) by (rule or_shift)
  finally have "js_and (js_or (js_shl x (int r)) (js_sar x (int s))) 0xFF
        = (x * 2 ^ r + x div 2 ^ s) mod 256"
    by (simp add: shl sar js_and_FF)
  also have "\<dots> = ((x div 2 ^ s * 2 ^ s + x mod 2 ^ s) * 2 ^ r + x div 2 ^ s) mod (2 ^ s * 2 ^ r)"
    by (simp only: sb(5) div_mult_mod_eq)
  also have "\<dots> = (x mod 2 ^ s) * 2 ^ r + x div 2 ^ s"
    using sb(1-4) by (rule rot_arith1)
  finally show ?thesis .
qed

lemma js_or_commute: "js_or a b = js_or b a"
  by (simp add: js_or_def or.commute)

text \<open>Layer 3 and its reverse: rotating left by \<open>r\<close> and then right by \<open>r\<close> is the identity
  on a byte.\<close>

lemma rotate_inverse:
  assumes "0 \<le> x" "x < 256" "r < 8"
  defines "y \<equiv> js_and (js_or (js_shl x (int r)) (js_sar x (8 - int r))) 0xFF"
  shows "0 \<le> y" "y < 256"
    "js_and (js_or (js_sar y (int r)) (js_shl y (8 - int r))) 0xFF = x"
proof -
  have rs: "r + (8 - r) = 8" "(8 - r) + r = 8" using assms(3) by simp_all
  have i: "8 - int r = int (8 - r)" using assms(3) by simp
  note sb = split_byte [OF assms(1,2) rs(1)]
  have y: "y = (x mod 2 ^ (8 - r)) * 2 ^ r + x div 2 ^ (8 - r)"
    unfolding y_def i using assms(1,2) rs(1) by (rule rot_gen)
  show y0: "0 \<le> y" unfolding y using sb by simp
  show y1: "y < 256" unfolding y using bound_ab [OF sb(1-4)] sb(5) by simp
  have "js_and (js_or (js_shl y (int (8 - r))) (js_sar y (int r))) 0xFF
        = (y mod 2 ^ r) * 2 ^ (8 - r) + y div 2 ^ r"
    using y0 y1 rs(2) by (rule rot_gen)
  also have "\<dots> = x div 2 ^ (8 - r) * 2 ^ (8 - r) + x mod 2 ^ (8 - r)"
    unfolding y using rot_arith2 [OF sb(1-4)] by simp
  also have "\<dots> = x" by (rule div_mult_mod_eq)
  finally show "js_and (js_or (js_sar y (int r)) (js_shl y (8 - int r))) 0xFF = x"
    by (simp add: i js_or_commute)
qed

text \<open>Layer 4 and its reverse.\<close>

lemma add_inverse:
  assumes "0 \<le> y" "y < 256" "0 \<le> k" "k < 256"
  shows "js_and (js_and (y + k) 0xFF - k + 256) 0xFF = y"
proof -
  have "((y + k) mod 256 - k + 256) mod 256 = (y + k - k + 256) mod 256"
    by (metis mod_add_left_eq mod_diff_left_eq)
  then show ?thesis using assms by (simp add: js_and_FF)
qed

text \<open>Layer 2 is an involution.\<close>

lemma xor_inverse:
  assumes "0 \<le> a" "a < 256" "0 \<le> k" "k < 256"
  shows "js_xor (js_xor a k) k = a"
  using assms xor_byte_range [OF assms] by (simp add: js_xor_byte xor.assoc)

section \<open>The substitution table and its inverse\<close>

lemma length_substitutionMatrix: "length substitutionMatrix = 256"
  by (simp add: substitutionMatrix_def createSubstitutionMatrix_def del: upt_rec_numeral)

lemma substitutionMatrix_nth:
  "i < 256 \<Longrightarrow> substitutionMatrix ! i = (int i * 17 + 42) mod 256"
  by (simp add: substitutionMatrix_def createSubstitutionMatrix_def js_rem_nonneg
        del: upt_Suc upt_rec_numeral)

lemma substitutionMatrix_range:
  "i < 256 \<Longrightarrow> 0 \<le> substitutionMatrix ! i \<and> substitutionMatrix ! i < 256"
  by (simp add: substitutionMatrix_nth)

text \<open>17 is invertible modulo 256: 17 * 241 = 16 * 256 + 1.\<close>

lemma table_inj:
  assumes "i < 256" "j < 256" "substitutionMatrix ! i = substitutionMatrix ! j"
  shows "i = j"
proof -
  have "(int i * 17 + 42) mod 256 = (int j * 17 + 42) mod 256"
    using assms by (simp add: substitutionMatrix_nth)
  then have "(256::int) dvd (int i * 17 + 42) - (int j * 17 + 42)"
    by (simp add: mod_eq_dvd_iff)
  then have "(256::int) dvd 17 * (int i - int j)" by (simp add: algebra_simps)
  then have "(256::int) dvd 241 * (17 * (int i - int j))" by (rule dvd_mult)
  moreover have "241 * (17 * (int i - int j)) = (int i - int j) + 256 * (16 * (int i - int j))"
    by (simp add: algebra_simps)
  ultimately have "(256::int) dvd int i - int j"
    by (metis dvd_add_times_triv_right_iff mult.commute)
  then obtain q where q: "int i - int j = 256 * q" by (rule dvdE)
  have "- 256 < int i - int j" "int i - int j < 256" using assms by linarith+
  then have "q = 0" using q by linarith
  then show ?thesis using q by simp
qed

text \<open>The scatter loop of createInverseMatrix, run for the first \<open>n\<close> indices.\<close>

lemma scatter_length:
  "length (fold (\<lambda>i inverse. inverse[f i := Some (int i)]) is init) = length init"
  by (induction "is" arbitrary: init) simp_all

lemma scatter_nth:
  assumes "\<And>i j. i < n \<Longrightarrow> j < n \<Longrightarrow> f i = f j \<Longrightarrow> i = j"
      and "\<And>i. i < n \<Longrightarrow> f i < length init"
      and "j < n"
  shows "fold (\<lambda>i inverse. inverse[f i := Some (int i)]) [0..<n] init ! f j = Some (int j)"
  using assms
proof (induction n arbitrary: j)
  case 0
  then show ?case by simp
next
  case (Suc n)
  let ?inv = "fold (\<lambda>i inverse. inverse[f i := Some (int i)]) [0..<n] init"
  have len: "length ?inv = length init" by (rule scatter_length)
  show ?case
  proof (cases "j = n")
    case True
    then show ?thesis using Suc.prems(2) [of n] len by simp
  next
    case False
    then have jn: "j < n" using Suc.prems(3) by simp
    then have "f n \<noteq> f j" using Suc.prems(1) [of n j] by auto
    moreover have "?inv ! f j = Some (int j)"
      using jn Suc.prems(1,2) by (intro Suc.IH) auto
    ultimately show ?thesis by simp
  qed
qed

lemma length_inverseMatrix: "length inverseMatrix = 256"
  by (simp add: inverseMatrix_def createInverseMatrix_def scatter_length del: upt_rec_numeral)

lemma inverse_of_table:
  assumes "b < 256"
  shows "inverseMatrix ! nat (substitutionMatrix ! b) = Some (int b)"
  unfolding inverseMatrix_def createInverseMatrix_def
proof (rule scatter_nth [where n = 256 and f = "\<lambda>i. nat (substitutionMatrix ! i)"])
  fix i j :: nat
  assume "i < 256" "j < 256" "nat (substitutionMatrix ! i) = nat (substitutionMatrix ! j)"
  then show "i = j"
    using substitutionMatrix_range [of i] substitutionMatrix_range [of j]
    by (intro table_inj) auto
next
  fix i :: nat
  assume "i < 256"
  then show "nat (substitutionMatrix ! i) < length (replicate 256 (None :: int option))"
    using substitutionMatrix_range [of i] by (simp add: nat_less_iff)
qed (rule assms)

lemma scramble_range:
  assumes "0 \<le> b" "b < 256" "validKey dk"
  shows "0 \<le> scrambleByte b p dk \<and> scrambleByte b p dk < 256"
  by (simp add: scrambleByte_def Let_def js_and_FF)

lemma unscramble_scramble:
  assumes "0 \<le> b" "b < 256" "validKey dk"
  shows "unscrambleByte (scrambleByte b p dk) p dk = Some b"
proof -
  define k1 where "k1 = dk ! (p mod length dk)"
  define k2 where "k2 = dk ! ((p * 7) mod length dk)"
  define s0 where "s0 = substitutionMatrix ! nat b"
  define s1 where "s1 = js_xor s0 k1"
  define s2 where "s2 = js_and (js_or (js_shl s1 (int (p mod 8))) (js_sar s1 (8 - int (p mod 8)))) 0xFF"
  have k: "0 \<le> k1" "k1 < 256" "0 \<le> k2" "k2 < 256"
    using assms(3) by (simp_all add: validKey_def k1_def k2_def)
  have s0: "0 \<le> s0" "s0 < 256"
    using assms(1,2) substitutionMatrix_range [of "nat b"] by (simp_all add: s0_def)
  have s1: "0 \<le> s1" "s1 < 256"
    using xor_byte_range [OF s0 k(1,2)] by (simp_all add: s1_def js_xor_byte [OF s0 k(1,2)])
  have r: "p mod 8 < 8" by simp
  note rot = rotate_inverse [OF s1 r, folded s2_def]
  have "scrambleByte b p dk = js_and (s2 + k2) 0xFF"
    by (simp add: scrambleByte_def Let_def s2_def s1_def s0_def k1_def k2_def)
  then have "unscrambleByte (scrambleByte b p dk) p dk
      = inverseMatrix ! nat (js_xor (js_and (js_or
            (js_sar (js_and (js_and (s2 + k2) 0xFF - k2 + 256) 0xFF) (int (p mod 8)))
            (js_shl (js_and (js_and (s2 + k2) 0xFF - k2 + 256) 0xFF) (8 - int (p mod 8)))) 0xFF) k1)"
    by (simp add: unscrambleByte_def Let_def k1_def k2_def)
  also have "\<dots> = inverseMatrix ! nat (js_xor s1 k1)"
    by (simp only: add_inverse [OF rot(1,2) k(3,4)] rot(3))
  also have "\<dots> = inverseMatrix ! nat s0"
    by (simp only: s1_def xor_inverse [OF s0 k(1,2)])
  also have "\<dots> = Some b"
    using inverse_of_table [of "nat b"] assms(1,2) by (simp add: s0_def)
  finally show ?thesis .
qed


section \<open>Key derivation\<close>

lemma hashStep_mod: "hashStep h x mod 4294967296 = djb2Step (h mod 4294967296) x"
proof -
  have a: "(toInt32 h * 32) mod 4294967296 = (h * 32) mod 4294967296"
    by (rule mod_mult_cong) (simp_all only: toInt32_mod)
  have b: "toInt32 (toInt32 h * 32) mod 4294967296 = (h * 32) mod 4294967296"
    by (simp only: toInt32_mod a)
  have "hashStep h x mod 4294967296 = (toInt32 (toInt32 h * 32) + (h + x)) mod 4294967296"
    by (simp add: hashStep_def js_and_FFFFFFFF js_shl_def toInt32_mod add.assoc)
  also have "\<dots> = (h * 32 + (h + x)) mod 4294967296"
    by (rule mod_add_cong [OF b refl])
  also have "\<dots> = (h * 33 + x) mod 4294967296"
    by (simp add: algebra_simps)
  also have "\<dots> = ((h mod 4294967296) * 33 + x) mod 4294967296"
    by (rule mod_add_cong [OF mod_mult_cong [OF _ refl] refl]) simp
  also have "\<dots> = djb2Step (h mod 4294967296) x"
    by (simp add: djb2Step_def algebra_simps)
  finally show ?thesis .
qed

lemma keyHash_mod:
  "foldl (\<lambda>hash c. hashStep hash (charCode c)) h key mod 4294967296
   = foldl (\<lambda>acc c. djb2Step acc (charCode c)) (h mod 4294967296) key"
  by (induction key arbitrary: h) (simp_all add: hashStep_mod)

lemma expandKey_eq:
  "expandKey h is = keystreamFrom djb2Step (h mod 4294967296) is"
proof (induction "is" arbitrary: h)
  case Nil
  show ?case by simp
next
  case (Cons i "is")
  let ?h = "hashStep h (int i + 7919)"
  have "?h mod 256 = ?h mod 4294967296 mod 256"
    by (simp add: mod_mod_cancel)
  then have byte: "js_and ?h 0xFF = djb2Step (h mod 4294967296) (int i + 7919) mod 256"
    by (simp only: js_and_FF hashStep_mod)
  have "expandKey h (i # is) = js_and ?h 0xFF # expandKey ?h is"
    by (simp add: Let_def)
  also have "\<dots> = djb2Step (h mod 4294967296) (int i + 7919) mod 256
                     # keystreamFrom djb2Step (?h mod 4294967296) is"
    by (simp only: byte Cons.IH)
  also have "\<dots> = keystreamFrom djb2Step (h mod 4294967296) (i # is)"
    by (simp only: hashStep_mod keystreamFrom.simps Let_def)
  finally show ?case .
qed

lemma length_expandKey: "length (expandKey h is) = length is"
  by (induction "is" arbitrary: h) (simp_all add: Let_def)

lemma expandKey_range: "k \<in> set (expandKey h is) \<Longrightarrow> 0 \<le> k \<and> k < 256"
  by (induction "is" arbitrary: h) (auto simp: Let_def js_and_FF)

lemma validKey_expandKey: "validKey (expandKey h [0..<256])"
  unfolding validKey_def using expandKey_range by (simp add: length_expandKey del: upt_Suc upt_rec_numeral)


section \<open>Hexadecimal digits\<close>

lemma nat_lt_16_cases:
  "d < 16 \<Longrightarrow> d = 0 \<or> d = 1 \<or> d = 2 \<or> d = 3 \<or> d = 4 \<or> d = 5 \<or> d = 6 \<or> d = 7
     \<or> d = 8 \<or> d = 9 \<or> d = 10 \<or> d = 11 \<or> d = 12 \<or> d = 13 \<or> d = 14 \<or> d = (15::nat)"
  by arith

lemma hex_alphabet:
  "js ''0123456789abcdef'' =
     [0x30, 0x31, 0x32, 0x33, 0x34, 0x35, 0x36, 0x37, 0x38, 0x39, 0x61, 0x62, 0x63, 0x64, 0x65, 0x66]"
  by (simp add: js_def)

lemma hexDigit_uint:
  assumes "d < 16"
  shows "uint (js ''0123456789abcdef'' ! d) = (if d < 10 then 48 + int d else 87 + int d)"
  using nat_lt_16_cases [OF assms] unfolding hex_alphabet
  by (elim disjE) simp_all

lemma hexDigitValue_uint:
  "hexDigitValue c =
     (if 48 \<le> uint c \<and> uint c \<le> 57 then Some (uint c - 48)
      else if 97 \<le> uint c \<and> uint c \<le> 102 then Some (uint c - 87)
      else if 65 \<le> uint c \<and> uint c \<le> 70 then Some (uint c - 55)
      else None)"
  by (simp add: hexDigitValue_def word_le_def)

lemma isStrWhiteSpace_uint:
  "isStrWhiteSpace c \<Longrightarrow> uint c \<le> 32 \<or> 160 \<le> uint c"
  by (auto simp: isStrWhiteSpace_def word_le_def)

lemma hexDigit_facts:
  assumes "d < 16"
  defines "c \<equiv> js ''0123456789abcdef'' ! d"
  shows "hexDigitValue c = Some (int d)" "\<not> isStrWhiteSpace c"
        "c \<noteq> 0x2D" "c \<noteq> 0x2B" "c \<noteq> 0x78" "c \<noteq> 0x58" "c \<noteq> 0x2E"
proof -
  have u: "uint c = (if d < 10 then 48 + int d else 87 + int d)"
    unfolding c_def using assms(1) by (rule hexDigit_uint)
  show "hexDigitValue c = Some (int d)"
    using assms(1) by (simp add: hexDigitValue_uint u)
  show "\<not> isStrWhiteSpace c"
    using isStrWhiteSpace_uint [of c] assms(1) by (auto simp: u split: if_splits)
  have "uint c \<noteq> 45" "uint c \<noteq> 43" "uint c \<noteq> 120" "uint c \<noteq> 88" "uint c \<noteq> 46"
    using assms(1) by (simp_all add: u)
  then show "c \<noteq> 0x2D" "c \<noteq> 0x2B" "c \<noteq> 0x78" "c \<noteq> 0x58" "c \<noteq> 0x2E"
    by auto
qed


lemma hexDigitsOf_small: "n < 16 \<Longrightarrow> hexDigitsOf n = [js ''0123456789abcdef'' ! n]"
  by (subst hexDigitsOf.simps) simp

lemma hexDigitsOf_large:
  "\<not> n < 16 \<Longrightarrow> hexDigitsOf n = hexDigitsOf (n div 16) @ [js ''0123456789abcdef'' ! (n mod 16)]"
  by (subst hexDigitsOf.simps) simp

text \<open>A byte is written as two hexadecimal digits.\<close>

lemma byte_to_hex:
  assumes "0 \<le> b" "b < 256"
  shows "padStart 2 0x30 (toString16 b) =
           [js ''0123456789abcdef'' ! (nat b div 16), js ''0123456789abcdef'' ! (nat b mod 16)]"
proof (cases "nat b < 16")
  case True
  then show ?thesis
    using assms by (simp add: toString16_def padStart_def hexDigitsOf_small hex_alphabet)
next
  case False
  have "nat b div 16 < 16" using assms by simp
  then show ?thesis
    using False assms by (simp add: toString16_def padStart_def hexDigitsOf_small hexDigitsOf_large)
qed

lemma parseInt16_pair:
  assumes "h < 16" "l < 16"
  shows "parseInt16 [js ''0123456789abcdef'' ! h, js ''0123456789abcdef'' ! l]
           = Some (int h * 16 + int l)"
  using hexDigit_facts [OF assms(1)] hexDigit_facts [OF assms(2)]
  by (simp add: parseInt16_def Let_def)

lemma parseInt16_byte:
  assumes "0 \<le> b" "b < 256"
  shows "parseInt16 (padStart 2 0x30 (toString16 b)) = Some b"
proof -
  have "nat b div 16 < 16" "nat b mod 16 < 16" using assms by simp_all
  then have p: "parseInt16 (padStart 2 0x30 (toString16 b))
        = Some (int (nat b div 16) * 16 + int (nat b mod 16))"
    unfolding byte_to_hex [OF assms] by (rule parseInt16_pair)
  have "int (nat b div 16) * 16 + int (nat b mod 16) = b"
    using assms by (simp add: zdiv_int zmod_int)
  then show ?thesis using p by simp
qed

lemma parsePairs_bytes:
  assumes "\<forall>b\<in>set bytes. 0 \<le> b \<and> b < 256"
  shows "parsePairs (concat (map (\<lambda>b. padStart 2 0x30 (toString16 b)) bytes)) = Inr bytes"
  using assms
proof (induction bytes)
  case Nil
  show ?case by simp
next
  case (Cons b bytes)
  have b: "0 \<le> b" "b < 256" using Cons.prems by simp_all
  obtain x y where xy: "padStart 2 0x30 (toString16 b) = [x, y]"
    using byte_to_hex [OF b] by blast
  have "parseInt16 [x, y] = Some b" using parseInt16_byte [OF b] xy by simp
  then show ?case using Cons xy by simp
qed

lemma length_hex_of_bytes:
  assumes "\<forall>b\<in>set bytes. 0 \<le> b \<and> b < 256"
  shows "length (concat (map (\<lambda>b. padStart 2 0x30 (toString16 b)) bytes)) = 2 * length bytes"
  using assms
proof (induction bytes)
  case Nil
  show ?case by simp
next
  case (Cons b bytes)
  then have "0 \<le> b" "b < 256" by simp_all
  from byte_to_hex [OF this] Cons show ?case by simp
qed

text \<open>Every character that \<open>toString(16)\<close> writes for a number that is not negative is a
  hexadecimal digit; so is the padding \<open>0\<close>.\<close>

lemma hexDigitsOf_chars:
  "c \<in> set (hexDigitsOf n) \<Longrightarrow> \<exists>d<16. c = js ''0123456789abcdef'' ! d"
proof (induction n rule: hexDigitsOf.induct)
  case (1 n)
  show ?case
  proof (cases "n < 16")
    case True
    then show ?thesis using "1.prems" by (auto simp: hexDigitsOf_small)
  next
    case False
    then have "c \<in> set (hexDigitsOf (n div 16)) \<or> c = js ''0123456789abcdef'' ! (n mod 16)"
      using "1.prems" by (auto simp: hexDigitsOf_large)
    then show ?thesis
    proof
      assume "c \<in> set (hexDigitsOf (n div 16))"
      then show ?thesis using False by (rule "1.IH" [rotated])
    next
      assume "c = js ''0123456789abcdef'' ! (n mod 16)"
      moreover have "n mod 16 < 16" by simp
      ultimately show ?thesis by blast
    qed
  qed
qed

lemma padded_hex_chars:
  assumes "0 \<le> v" "c \<in> set (padStart n 0x30 (toString16 v))"
  shows "\<exists>d<16. c = js ''0123456789abcdef'' ! d"
proof -
  have "c = 0x30 \<or> c \<in> set (hexDigitsOf (nat v))"
    using assms by (auto simp: padStart_def toString16_def split: if_splits)
  then show ?thesis
  proof
    assume "c = 0x30"
    then have "c = js ''0123456789abcdef'' ! 0" by (simp add: hex_alphabet)
    then show ?thesis by (intro exI [of _ 0]) simp
  qed (rule hexDigitsOf_chars)
qed

lemma hex_of_bytes_chars:
  assumes "\<forall>b\<in>set bytes. 0 \<le> b \<and> b < 256"
      and "c \<in> set (concat (map (\<lambda>b. padStart 2 0x30 (toString16 b)) bytes))"
  shows "\<exists>d<16. c = js ''0123456789abcdef'' ! d"
proof -
  from assms(2) obtain b where "b \<in> set bytes" "c \<in> set (padStart 2 0x30 (toString16 b))"
    by auto
  then show ?thesis using assms(1) padded_hex_chars [of b c 2] by blast
qed

text \<open>Splitting \<open>hex.checksum\<close> at the dot gives back the two parts when neither holds a dot.\<close>

lemma split_on_no_sep: "d \<notin> set s \<Longrightarrow> split_on d s = [s]"
  by (induction s) auto

lemma split_on_one_sep:
  "d \<notin> set s \<Longrightarrow> d \<notin> set t \<Longrightarrow> split_on d (s @ d # t) = [s, t]"
  by (induction s) (auto simp: split_on_no_sep)

lemma split_on_two_sep:
  "d \<notin> set s \<Longrightarrow> split_on d (s @ d # t @ d # u) = s # split_on d (t @ d # u)"
  by (induction s) auto

lemma split_on_length: "length (split_on d s) = Suc (count_list s d)"
  by (induction s) (auto split: list.splits)

section \<open>The checksum\<close>

lemma dvd_small_diff:
  fixes a b :: int
  assumes "65536 dvd a - b" "0 \<le> a" "a < 65536" "0 \<le> b" "b < 65536"
  shows "a = b"
proof -
  from assms(1) obtain q where q: "a - b = 65536 * q" by (rule dvdE)
  have "- 65536 < a - b" "a - b < 65536" using assms by linarith+
  then have "q = 0" using q by linarith
  then show ?thesis using q by simp
qed

text \<open>31 is invertible modulo 65536: 31 * 31711 = 15 * 65536 + 1.\<close>

lemma checksum_step_inj_acc:
  fixes a b :: int
  assumes "(a * 31 + x) mod 65536 = (b * 31 + x) mod 65536"
      and "0 \<le> a" "a < 65536" "0 \<le> b" "b < 65536"
  shows "a = b"
proof -
  have "(65536::int) dvd (a * 31 + x) - (b * 31 + x)"
    using assms(1) by (simp add: mod_eq_dvd_iff)
  then have "(65536::int) dvd 31 * (a - b)" by (simp add: algebra_simps)
  then have "(65536::int) dvd 31711 * (31 * (a - b))" by (rule dvd_mult)
  moreover have "31711 * (31 * (a - b)) = (a - b) + 65536 * (15 * (a - b))"
    by (simp add: algebra_simps)
  ultimately have "(65536::int) dvd (a - b) + 65536 * (15 * (a - b))" by simp
  then have "(65536::int) dvd a - b" by (simp only: dvd_add_times_triv_right_iff mult.commute [of 65536])
  then show ?thesis using assms(2-5) by (rule dvd_small_diff)
qed

lemma checksum_step_inj_add:
  fixes a b :: int
  assumes "(a + x) mod 65536 = (b + x) mod 65536"
      and "0 \<le> a" "a < 65536" "0 \<le> b" "b < 65536"
  shows "a = b"
proof -
  have "(65536::int) dvd (a + x) - (b + x)"
    using assms(1) by (simp add: mod_eq_dvd_iff)
  then have "(65536::int) dvd a - b" by simp
  then show ?thesis using assms(2-5) by (rule dvd_small_diff)
qed

lemma checksum_step_inj_char:
  assumes "(a * 31 + charCode c) mod 65536 = (a * 31 + charCode d) mod 65536"
  shows "c = d"
proof -
  have "(65536::int) dvd (a * 31 + charCode c) - (a * 31 + charCode d)"
    using assms by (simp add: mod_eq_dvd_iff)
  then have "(65536::int) dvd charCode c - charCode d" by simp
  moreover have "0 \<le> charCode c" "charCode c < 65536" "0 \<le> charCode d" "charCode d < 65536"
    using uint_bounded [of c] uint_bounded [of d] by (simp_all add: charCode_def)
  ultimately have "charCode c = charCode d" by (rule dvd_small_diff)
  then show ?thesis by (simp add: charCode_def word_uint_eq_iff)
qed

lemma charCode_nonneg: "0 \<le> charCode c"
  by (simp add: charCode_def)

lemma checksum_step_eq:
  "0 \<le> a \<Longrightarrow> js_rem (a * 31 + charCode c) 65536 = (a * 31 + charCode c) mod 65536"
  using charCode_nonneg [of c] by (intro js_rem_nonneg) auto

lemma checksum_data_range:
  assumes "0 \<le> a" "a < 65536"
  shows "0 \<le> foldl (\<lambda>checksum c. js_rem (checksum * 31 + charCode c) 65536) a data
       \<and> foldl (\<lambda>checksum c. js_rem (checksum * 31 + charCode c) 65536) a data < 65536"
  using assms
proof (induction data arbitrary: a)
  case Nil
  then show ?case by simp
next
  case (Cons c data)
  have "0 \<le> (a * 31 + charCode c) mod 65536" "(a * 31 + charCode c) mod 65536 < 65536"
    by simp_all
  then show ?case using Cons.prems by (simp add: checksum_step_eq Cons.IH)
qed

lemma checksum_data_inj_acc:
  assumes "0 \<le> a" "a < 65536" "0 \<le> b" "b < 65536" "a \<noteq> b"
  shows "foldl (\<lambda>checksum c. js_rem (checksum * 31 + charCode c) 65536) a data
       \<noteq> foldl (\<lambda>checksum c. js_rem (checksum * 31 + charCode c) 65536) b data"
  using assms
proof (induction data arbitrary: a b)
  case Nil
  then show ?case by simp
next
  case (Cons c data)
  let ?a = "(a * 31 + charCode c) mod 65536" and ?b = "(b * 31 + charCode c) mod 65536"
  have "?a \<noteq> ?b" using checksum_step_inj_acc [of a "charCode c" b] Cons.prems by blast
  moreover have "0 \<le> ?a" "?a < 65536" "0 \<le> ?b" "?b < 65536" by simp_all
  ultimately have "foldl (\<lambda>checksum c. js_rem (checksum * 31 + charCode c) 65536) ?a data
       \<noteq> foldl (\<lambda>checksum c. js_rem (checksum * 31 + charCode c) 65536) ?b data"
    by (intro Cons.IH)
  then show ?case using Cons.prems by (simp add: checksum_step_eq)
qed

text \<open>Replacing one character of the data changes the first part of the checksum.\<close>

lemma checksum_data_update:
  assumes "i < length data" "c \<noteq> data ! i"
  shows "foldl (\<lambda>checksum c. js_rem (checksum * 31 + charCode c) 65536) 0 (data[i := c])
       \<noteq> foldl (\<lambda>checksum c. js_rem (checksum * 31 + charCode c) 65536) 0 data"
proof -
  let ?f = "\<lambda>checksum c. js_rem (checksum * 31 + charCode c) 65536"
  let ?s = "foldl ?f 0 (take i data)"
  have s: "0 \<le> ?s" "?s < 65536" using checksum_data_range [of 0 "take i data"] by simp_all
  have d: "data = take i data @ data ! i # drop (Suc i) data"
    using assms(1) by (rule id_take_nth_drop)
  have u: "data[i := c] = take i data @ c # drop (Suc i) data"
    using assms(1) by (rule upd_conv_take_nth_drop)
  let ?a = "(?s * 31 + charCode c) mod 65536" and ?b = "(?s * 31 + charCode (data ! i)) mod 65536"
  have "?a \<noteq> ?b" using checksum_step_inj_char [of ?s c "data ! i"] assms(2) by blast
  moreover have "0 \<le> ?a" "?a < 65536" "0 \<le> ?b" "?b < 65536" by simp_all
  ultimately have ne: "foldl ?f ?a (drop (Suc i) data) \<noteq> foldl ?f ?b (drop (Suc i) data)"
    by (intro checksum_data_inj_acc)
  have "foldl ?f 0 (data[i := c]) = foldl ?f ?a (drop (Suc i) data)"
    by (subst u) (simp add: checksum_step_eq s)
  moreover have "foldl ?f 0 data = foldl ?f ?b (drop (Suc i) data)"
    by (subst d) (simp add: checksum_step_eq s)
  ultimately show ?thesis using ne by simp
qed

text \<open>The key part of the checksum, for a key whose elements are bytes.\<close>

lemma checksum_key_range:
  assumes "\<forall>i\<in>set is. 0 \<le> dk ! i" "0 \<le> a" "a < 65536"
  shows "0 \<le> foldl (\<lambda>checksum i. js_rem (checksum + dk ! i * (int i + 1)) 65536) a is
       \<and> foldl (\<lambda>checksum i. js_rem (checksum + dk ! i * (int i + 1)) 65536) a is < 65536"
  using assms
proof (induction "is" arbitrary: a)
  case Nil
  then show ?case by simp
next
  case (Cons i "is")
  have "0 \<le> a + dk ! i * (int i + 1)" using Cons.prems by simp
  then have e: "js_rem (a + dk ! i * (int i + 1)) 65536 = (a + dk ! i * (int i + 1)) mod 65536"
    by (intro js_rem_nonneg) auto
  have "0 \<le> (a + dk ! i * (int i + 1)) mod 65536" "(a + dk ! i * (int i + 1)) mod 65536 < 65536"
    by simp_all
  then show ?case using Cons.prems by (simp add: e Cons.IH)
qed

lemma checksum_key_inj:
  assumes "\<forall>i\<in>set is. 0 \<le> dk ! i" "0 \<le> a" "a < 65536" "0 \<le> b" "b < 65536" "a \<noteq> b"
  shows "foldl (\<lambda>checksum i. js_rem (checksum + dk ! i * (int i + 1)) 65536) a is
       \<noteq> foldl (\<lambda>checksum i. js_rem (checksum + dk ! i * (int i + 1)) 65536) b is"
  using assms
proof (induction "is" arbitrary: a b)
  case Nil
  then show ?case by simp
next
  case (Cons i "is")
  let ?x = "dk ! i * (int i + 1)"
  have x: "0 \<le> ?x" using Cons.prems by simp
  have e: "js_rem (a + ?x) 65536 = (a + ?x) mod 65536" "js_rem (b + ?x) 65536 = (b + ?x) mod 65536"
    using x Cons.prems by (auto intro!: js_rem_nonneg)
  have "(a + ?x) mod 65536 \<noteq> (b + ?x) mod 65536"
    using checksum_step_inj_add [of a ?x b] Cons.prems by blast
  moreover have "0 \<le> (a + ?x) mod 65536" "(a + ?x) mod 65536 < 65536"
     "0 \<le> (b + ?x) mod 65536" "(b + ?x) mod 65536 < 65536" by simp_all
  ultimately have "foldl (\<lambda>checksum i. js_rem (checksum + dk ! i * (int i + 1)) 65536) ((a + ?x) mod 65536) is
       \<noteq> foldl (\<lambda>checksum i. js_rem (checksum + dk ! i * (int i + 1)) 65536) ((b + ?x) mod 65536) is"
    using Cons.prems(1) by (intro Cons.IH) auto
  then show ?case by (simp add: e)
qed

text \<open>Reading the digits back gives the number, so the rendering is injective.\<close>

lemma hexValue_digits:
  "foldl (\<lambda>acc c. acc * 16 + the (hexDigitValue c)) 0 (hexDigitsOf n) = int n"
proof (induction n rule: hexDigitsOf.induct)
  case (1 n)
  show ?case
  proof (cases "n < 16")
    case True
    then show ?thesis using hexDigit_facts(1) [of n] by (simp add: hexDigitsOf_small)
  next
    case False
    have "n div 16 * 16 + n mod 16 = n" by simp
    then have "int (n div 16 * 16 + n mod 16) = int n" by (rule arg_cong)
    then have e: "int (n div 16) * 16 + int (n mod 16) = int n"
      by (simp only: of_nat_add of_nat_mult of_nat_numeral)
    have "n mod 16 < 16" by simp
    from hexDigit_facts(1) [OF this] "1.IH" [OF False] False
    show ?thesis by (simp add: hexDigitsOf_large e del: of_nat_div of_nat_mod)
  qed
qed

lemma hexValue_padding:
  "foldl (\<lambda>acc c. acc * 16 + the (hexDigitValue c)) 0 (replicate k 0x30 @ s)
   = foldl (\<lambda>acc c. acc * 16 + the (hexDigitValue c)) 0 s"
proof -
  have "foldl (\<lambda>acc c. acc * 16 + the (hexDigitValue c)) 0 (replicate k 0x30) = 0"
    by (induction k) (simp_all add: hexDigitValue_def)
  then show ?thesis by simp
qed

lemma padded_hex_inj:
  assumes "padStart n 0x30 (toString16 a) = padStart n 0x30 (toString16 b)" "0 \<le> a" "0 \<le> b"
  shows "a = b"
proof -
  have v: "foldl (\<lambda>acc c. acc * 16 + the (hexDigitValue c)) 0 (padStart n 0x30 (toString16 v)) = v"
    if "0 \<le> v" for v
  proof -
    have t: "toString16 v = hexDigitsOf (nat v)" using that by (simp add: toString16_def)
    show ?thesis unfolding padStart_def t hexValue_padding hexValue_digits using that by simp
  qed
  have "a = foldl (\<lambda>acc c. acc * 16 + the (hexDigitValue c)) 0 (padStart n 0x30 (toString16 a))"
    by (simp only: v [OF assms(2)])
  also have "\<dots> = foldl (\<lambda>acc c. acc * 16 + the (hexDigitValue c)) 0 (padStart n 0x30 (toString16 b))"
    by (simp only: assms(1))
  also have "\<dots> = b" by (rule v [OF assms(3)])
  finally show ?thesis .
qed

lemma validKey_nonneg: "validKey dk \<Longrightarrow> i < 256 \<Longrightarrow> 0 \<le> dk ! i \<and> dk ! i < 256"
  by (simp add: validKey_def)

lemma validKey_indices:
  assumes "validKey dk"
  shows "\<forall>i\<in>set [0..<min (length dk) 16]. 0 \<le> dk ! i"
  using assms validKey_nonneg [OF assms] by (auto simp: validKey_def simp del: upt_rec_numeral)

lemma calculateChecksum_chars:
  assumes "validKey dk" "c \<in> set (calculateChecksum data dk)"
  shows "\<exists>d<16. c = js ''0123456789abcdef'' ! d"
proof -
  let ?v = "foldl (\<lambda>checksum i. js_rem (checksum + dk ! i * (int i + 1)) 65536)
             (foldl (\<lambda>checksum c. js_rem (checksum * 31 + charCode c) 65536) 0 data)
             [0..<min (length dk) 16]"
  have "0 \<le> ?v"
    using checksum_key_range [OF validKey_indices [OF assms(1)]] checksum_data_range [of 0 data]
    by simp
  moreover have "c \<in> set (padStart 4 0x30 (toString16 ?v))"
    using assms(2) by (simp add: calculateChecksum_def Let_def)
  ultimately show ?thesis by (rule padded_hex_chars)
qed

lemma hex_chars_no_dot:
  assumes "\<And>c. c \<in> set s \<Longrightarrow> \<exists>d<16. c = js ''0123456789abcdef'' ! d"
  shows "0x2E \<notin> set s"
proof
  assume "0x2E \<in> set s"
  then obtain d where d: "d < 16" "0x2E = js ''0123456789abcdef'' ! d"
    using assms by blast
  show False using hexDigit_facts(7) [OF d(1)] d(2) by simp
qed

lemma calculateChecksum_no_dot:
  assumes "validKey dk"
  shows "0x2E \<notin> set (calculateChecksum data dk)"
  using calculateChecksum_chars [OF assms] by (rule hex_chars_no_dot)

lemma calculateChecksum_inj:
  assumes "validKey dk" "calculateChecksum s dk = calculateChecksum t dk"
  shows "foldl (\<lambda>checksum c. js_rem (checksum * 31 + charCode c) 65536) 0 s
       = foldl (\<lambda>checksum c. js_rem (checksum * 31 + charCode c) 65536) 0 t"
proof (rule ccontr)
  let ?f = "\<lambda>checksum c. js_rem (checksum * 31 + charCode c) 65536"
  let ?g = "\<lambda>checksum i. js_rem (checksum + dk ! i * (int i + 1)) 65536"
  let ?is = "[0..<min (length dk) 16]"
  assume ne: "foldl ?f 0 s \<noteq> foldl ?f 0 t"
  note k = validKey_indices [OF assms(1)]
  have rs: "0 \<le> foldl ?f 0 s" "foldl ?f 0 s < 65536" "0 \<le> foldl ?f 0 t" "foldl ?f 0 t < 65536"
    using checksum_data_range [of 0 s] checksum_data_range [of 0 t] by simp_all
  have "foldl ?g (foldl ?f 0 s) ?is \<noteq> foldl ?g (foldl ?f 0 t) ?is"
    using k rs ne by (rule checksum_key_inj)
  moreover have "0 \<le> foldl ?g (foldl ?f 0 s) ?is" "0 \<le> foldl ?g (foldl ?f 0 t) ?is"
    using checksum_key_range [OF k rs(1,2)] checksum_key_range [OF k rs(3,4)] by simp_all
  ultimately have "padStart 4 0x30 (toString16 (foldl ?g (foldl ?f 0 s) ?is))
      \<noteq> padStart 4 0x30 (toString16 (foldl ?g (foldl ?f 0 t) ?is))"
    using padded_hex_inj by blast
  then show False using assms(2) by (simp add: calculateChecksum_def Let_def)
qed

text \<open>\<open>hexToBytes\<close> reads back what \<open>bytesToHex\<close> wrote.\<close>

lemma hexToBytes_bytesToHex:
  assumes "validKey dk" "\<forall>b\<in>set bytes. 0 \<le> b \<and> b < 256"
  shows "hexToBytes (bytesToHex bytes dk) dk = Inr bytes"
proof -
  let ?hex = "concat (map (\<lambda>b. padStart 2 0x30 (toString16 b)) bytes)"
  have nodot: "0x2E \<notin> set ?hex"
    using hex_of_bytes_chars [OF assms(2)] by (rule hex_chars_no_dot)
  have "split_on 0x2E (?hex @ 0x2E # calculateChecksum ?hex dk) = [?hex, calculateChecksum ?hex dk]"
    using nodot calculateChecksum_no_dot [OF assms(1)] by (rule split_on_one_sep)
  moreover have "bytesToHex bytes dk = ?hex @ 0x2E # calculateChecksum ?hex dk"
    by (simp add: bytesToHex_def Let_def js_def)
  ultimately show ?thesis
    using parsePairs_bytes [OF assms(2)] length_hex_of_bytes [OF assms(2)]
    by (simp add: hexToBytes_def)
qed

lemma count_list_pos: "x \<in> set xs \<Longrightarrow> 0 < count_list xs x"
  by (induction xs) auto

text \<open>A frame whose hex part has one character replaced.\<close>

lemma hexToBytes_mutated:
  assumes "validKey dk" "0x2E \<notin> set hex" "i < length hex" "c \<noteq> hex ! i"
  shows "hexToBytes ((hex @ 0x2E # calculateChecksum hex dk)[i := c]) dk
         = (if c = 0x2E then Inl InvalidFormat else Inl ChecksumFailed)"
proof -
  let ?cs = "calculateChecksum hex dk"
  have u: "(hex @ 0x2E # ?cs)[i := c] = hex[i := c] @ 0x2E # ?cs"
    using assms(3) by (simp add: list_update_append)
  show ?thesis
  proof (cases "c = 0x2E")
    case True
    have "2 \<le> count_list (hex[i := c] @ 0x2E # ?cs) 0x2E"
    proof -
      have "c \<in> set (hex[i := c])" using assms(3) by (simp add: set_update_memI)
      then have "0 < count_list (hex[i := c]) 0x2E" using True count_list_pos by fastforce
      then show ?thesis by simp
    qed
    then have "3 \<le> length (split_on 0x2E ((hex @ 0x2E # ?cs)[i := c]))"
      by (simp add: u split_on_length)
    then show ?thesis using True
      by (auto simp: hexToBytes_def split: list.splits)
  next
    case False
    have "0x2E \<notin> set (hex[i := c])"
      using assms(2) False set_update_subset_insert [of hex i c] by auto
    then have "split_on 0x2E (hex[i := c] @ 0x2E # ?cs) = [hex[i := c], ?cs]"
      using calculateChecksum_no_dot [OF assms(1)] by (rule split_on_one_sep)
    moreover have "?cs \<noteq> calculateChecksum (hex[i := c]) dk"
      using calculateChecksum_inj [OF assms(1), of hex "hex[i := c]"]
            checksum_data_update [OF assms(3,4)] by auto
    ultimately show ?thesis using False by (simp add: u hexToBytes_def)
  qed
qed

section \<open>UTF-8\<close>

lemma mod_offset: "0 \<le> r \<Longrightarrow> r < m \<Longrightarrow> (k * m + r) mod m = (r::int)"
  by simp

lemma continuation_byte:
  assumes "0 \<le> r" "r < 64" "lower \<le> 128 + r" "128 + r \<le> upper"
  shows "utf8_decode acc (Suc n) lower upper ((128 + r) # bs) =
           (if n = 0 then (acc * 64 + r) # utf8_decode 0 0 0x80 0xBF bs
            else utf8_decode (acc * 64 + r) n 0x80 0xBF bs)"
proof -
  have "(128 + r) mod 64 = r" using mod_offset [OF assms(1,2), of 2] by simp
  then show ?thesis using assms by simp
qed

lemma split64:
  fixes x :: int
  shows "0 \<le> x mod 64" "x mod 64 < 64" "x div 64 * 64 + x mod 64 = x"
  by simp_all

lemma utf8_decode_scalar:
  assumes "validScalar cp"
  shows "utf8_decode 0 0 0x80 0xBF (utf8_of_scalar cp @ rest) = cp # utf8_decode 0 0 0x80 0xBF rest"
proof -
  consider "cp < 0x80" | "0x80 \<le> cp" "cp < 0x800" | "0x800 \<le> cp" "cp < 0x10000"
    | "0x10000 \<le> cp" by linarith
  then show ?thesis
  proof cases
    case 1
    then show ?thesis using assms by (simp add: utf8_of_scalar_def validScalar_def)
  next
    case 2
    define q where "q = cp div 64"
    define r where "r = cp mod 64"
    have r: "0 \<le> r" "r < 64" and cp: "q * 64 + r = cp" by (simp_all add: q_def r_def)
    have q: "2 \<le> q" "q < 32" using 2 cp r by linarith+
    have m: "(192 + q) mod 32 = q" using mod_offset [of q 32 6] q by simp
    have "utf8_of_scalar cp = [192 + q, 128 + r]"
      using 2 by (simp add: utf8_of_scalar_def q_def r_def)
    moreover have "utf8_decode 0 0 0x80 0xBF ((192 + q) # (128 + r) # rest)
        = utf8_decode q (Suc 0) 0x80 0xBF ((128 + r) # rest)"
      using q m by simp
    ultimately show ?thesis
      using continuation_byte [OF r, of "0x80" "0xBF" q 0 rest] r cp by simp
  next
    case 3
    define r where "r = cp mod 64"
    define s where "s = (cp div 64) mod 64"
    define q where "q = cp div 4096"
    have r: "0 \<le> r" "r < 64" and s: "0 \<le> s" "s < 64" by (simp_all add: r_def s_def)
    have "cp div 64 div 64 = q" by (simp add: q_def zdiv_zmult2_eq [symmetric])
    then have cp: "(q * 64 + s) * 64 + r = cp"
      unfolding s_def r_def by (metis split64(3))
    have cp': "q * 4096 + s * 64 + r = cp" using cp by (simp add: algebra_simps)
    have q: "0 \<le> q" "q < 16" using 3 cp' r s by arith+
    have m: "(224 + q) mod 16 = q" using mod_offset [of q 16 14] q by simp
    have sur: "cp < 55296 \<or> 57343 < cp" using assms by (auto simp: validScalar_def)
    have lo: "(if 224 + q = 224 then 160 else 128) \<le> 128 + s"
      using 3 cp' r s q by (auto; arith)
    have hi: "128 + s \<le> (if 224 + q = 237 then 159 else 191)"
      using sur 3 cp' r s q by (auto; arith)
    have "utf8_of_scalar cp = [224 + q, 128 + s, 128 + r]"
      using 3 by (simp add: utf8_of_scalar_def q_def r_def s_def)
    moreover have "utf8_decode 0 0 0x80 0xBF ((224 + q) # (128 + s) # (128 + r) # rest)
        = utf8_decode q (Suc (Suc 0)) (if 224 + q = 224 then 160 else 128)
            (if 224 + q = 237 then 159 else 191) ((128 + s) # (128 + r) # rest)"
      using q m by (simp add: numeral_2_eq_2)
    ultimately show ?thesis
      using continuation_byte [OF s lo hi, of q "Suc 0" "(128 + r) # rest"]
            continuation_byte [OF r, of "0x80" "0xBF" "q * 64 + s" 0 rest] r cp by simp
  next
    case 4
    define r where "r = cp mod 64"
    define s where "s = (cp div 64) mod 64"
    define t where "t = (cp div 4096) mod 64"
    define q where "q = cp div 262144"
    have r: "0 \<le> r" "r < 64" and s: "0 \<le> s" "s < 64" and t: "0 \<le> t" "t < 64"
      by (simp_all add: r_def s_def t_def)
    have a: "cp div 64 div 64 = cp div 4096" by (simp add: zdiv_zmult2_eq [symmetric])
    have b: "cp div 4096 div 64 = q" by (simp add: q_def zdiv_zmult2_eq [symmetric])
    have "(q * 64 + t) * 64 + s = cp div 64"
      unfolding s_def t_def b [symmetric] a [symmetric] by (simp only: split64(3))
    then have cp: "((q * 64 + t) * 64 + s) * 64 + r = cp"
      unfolding r_def by (simp only: split64(3))
    have cp': "q * 262144 + t * 4096 + s * 64 + r = cp" using cp by (simp add: algebra_simps)
    have top: "cp < 1114112" using assms by (simp add: validScalar_def)
    have q: "0 \<le> q" "q \<le> 4" using top 4 cp' r s t by arith+
    have m: "(240 + q) mod 8 = q" using mod_offset [of q 8 30] q by simp
    have lo: "(if 240 + q = 240 then 144 else 128) \<le> 128 + t"
      using 4 cp' r s t q by (auto; arith)
    have hi: "128 + t \<le> (if 240 + q = 244 then 143 else 191)"
      using top 4 cp' r s t q by (auto; arith)
    have "utf8_of_scalar cp = [240 + q, 128 + t, 128 + s, 128 + r]"
      using 4 by (simp add: utf8_of_scalar_def q_def r_def s_def t_def)
    moreover have "utf8_decode 0 0 0x80 0xBF ((240 + q) # (128 + t) # (128 + s) # (128 + r) # rest)
        = utf8_decode q (Suc (Suc (Suc 0))) (if 240 + q = 240 then 144 else 128)
            (if 240 + q = 244 then 143 else 191) ((128 + t) # (128 + s) # (128 + r) # rest)"
      using q m by (simp add: numeral_3_eq_3)
    ultimately show ?thesis
      using continuation_byte [OF t lo hi, of q "Suc (Suc 0)" "(128 + s) # (128 + r) # rest"]
            continuation_byte [OF s, of "0x80" "0xBF" "q * 64 + t" "Suc 0" "(128 + r) # rest"]
            continuation_byte [OF r, of "0x80" "0xBF" "(q * 64 + t) * 64 + s" 0 rest] r s cp by simp
  qed
qed

lemma utf8_decode_scalars:
  assumes "\<forall>cp\<in>set cps. validScalar cp"
  shows "utf8_decode 0 0 0x80 0xBF (concat (map utf8_of_scalar cps)) = cps"
  using assms by (induction cps) (simp_all add: utf8_decode_scalar)

lemma utf8_of_scalar_bytes:
  assumes "validScalar cp" "b \<in> set (utf8_of_scalar cp)"
  shows "0 \<le> b \<and> b < 256"
proof -
  have c: "0 \<le> cp" "cp < 1114112" using assms(1) by (simp_all add: validScalar_def)
  have m: "0 \<le> cp mod 64" "cp mod 64 < 64" "0 \<le> cp div 64 mod 64" "cp div 64 mod 64 < 64"
          "0 \<le> cp div 4096 mod 64" "cp div 4096 mod 64 < 64" by simp_all
  have d: "0 \<le> cp div 64" "0 \<le> cp div 4096" "0 \<le> cp div 262144"
    using c by (simp_all add: pos_imp_zdiv_nonneg_iff)
  have "cp < 2048 \<Longrightarrow> cp div 64 < 32" "cp < 65536 \<Longrightarrow> cp div 4096 < 16"
       "cp div 262144 < 16"
    using c by (auto intro!: div_lt_mult)
  then show ?thesis
    using assms(2) c m d by (auto simp: utf8_of_scalar_def split: if_splits)
qed

lemma surrogate_codes:
  "isLead c \<longleftrightarrow> 55296 \<le> uint c \<and> uint c \<le> 56319"
  "isTrail c \<longleftrightarrow> 56320 \<le> uint c \<and> uint c \<le> 57343"
  by (simp_all add: isLead_def isTrail_def word_le_def)

lemma toScalars_valid: "cp \<in> set (toScalars s) \<Longrightarrow> validScalar cp"
proof (induction s rule: toScalars.induct)
  case 1
  then show ?case by simp
next
  case (2 c)
  then show ?case
    using uint_bounded [of c]
    by (auto simp: validScalar_def surrogate_codes split: if_splits)
next
  case (3 c d cs)
  have "validScalar (surrogatePairValue c d)"
    if "isLead c" "isTrail d"
    using that by (simp add: validScalar_def surrogate_codes surrogatePairValue_def)
  moreover have "validScalar (uint c)" if "\<not> isLead c" "\<not> isTrail c"
    using that uint_bounded [of c] by (auto simp: validScalar_def surrogate_codes)
  moreover have "validScalar 0xFFFD" by (simp add: validScalar_def)
  ultimately show ?case using 3 by (auto split: if_splits)
qed

lemma textEncoder_bytes: "b \<in> set (textEncoder_encode s) \<Longrightarrow> 0 \<le> b \<and> b < 256"
  using toScalars_valid utf8_of_scalar_bytes by (fastforce simp: textEncoder_encode_def)

lemma utf8_roundtrip: "utf8_decode 0 0 0x80 0xBF (textEncoder_encode s) = toScalars s"
  unfolding textEncoder_encode_def using toScalars_valid by (intro utf8_decode_scalars) blast

text \<open>Turning the scalar values of a well-formed string back into UTF-16.\<close>

lemma utf16_pair:
  assumes "isLead c" "isTrail d"
  shows "utf16_of_scalar (surrogatePairValue c d) = [c, d]"
proof -
  define h where "h = uint c - 0xD800"
  define l where "l = uint d - 0xDC00"
  have h: "0 \<le> h" "h < 1024" and l: "0 \<le> l" "l < 1024"
    using assms by (simp_all add: surrogate_codes h_def l_def)
  have dm: "(h * 1024 + l) div 1024 = h" "(h * 1024 + l) mod 1024 = l"
    using l by simp_all
  have "\<not> 65536 + h * 1024 + l < 65536" using h l by simp
  moreover have "65536 + h * 1024 + l - 65536 = h * 1024 + l" by simp
  ultimately have "utf16_of_scalar (0x10000 + h * 0x400 + l)
      = [word_of_int (0xD800 + h), word_of_int (0xDC00 + l)]"
    by (simp only: utf16_of_scalar_def dm if_False)
  moreover have "0xD800 + h = uint c" "0xDC00 + l = uint d" by (simp_all add: h_def l_def)
  ultimately show ?thesis by (simp add: h_def l_def surrogatePairValue_def)
qed

lemma utf16_single: "utf16_of_scalar (uint c) = [c]"
  using uint_bounded [of c] by (simp add: utf16_of_scalar_def)

lemma utf16_roundtrip:
  "wellFormedUTF16 s \<Longrightarrow> concat (map utf16_of_scalar (toScalars s)) = s"
  by (induction s rule: toScalars.induct) (auto simp: utf16_pair utf16_single split: if_splits)

lemma toScalars_head:
  assumes "wellFormedUTF16 s" "s \<noteq> []" "hd s \<noteq> 0xFEFF"
  shows "\<exists>cp cps. toScalars s = cp # cps \<and> cp \<noteq> 0xFEFF"
proof (cases s rule: toScalars.cases)
  case 1
  then show ?thesis using assms by simp
next
  case (2 c)
  then have "uint c \<noteq> 0xFEFF" using assms(3) by (auto simp: word_uint_eq_iff)
  then show ?thesis using 2 assms(1) by simp
next
  case (3 c d cs)
  have "uint c \<noteq> 0xFEFF" using 3 assms(3) by (auto simp: word_uint_eq_iff)
  moreover have "surrogatePairValue c d \<noteq> 0xFEFF"
    if "isLead c" "isTrail d"
    using that by (simp add: surrogate_codes surrogatePairValue_def)
  ultimately show ?thesis using 3 assms(1) by (auto split: if_splits)
qed

lemma text_roundtrip:
  assumes "wellFormedUTF16 s" "s = [] \<or> hd s \<noteq> 0xFEFF"
  shows "textDecoder_decode (textEncoder_encode s) = s"
proof (cases "s = []")
  case True
  then show ?thesis by (simp add: textDecoder_decode_def textEncoder_encode_def)
next
  case False
  then obtain cp cps where h: "toScalars s = cp # cps" "cp \<noteq> 0xFEFF"
    using toScalars_head [OF assms(1)] assms(2) by blast
  have "textDecoder_decode (textEncoder_encode s) = concat (map utf16_of_scalar (toScalars s))"
    using h by (simp add: textDecoder_decode_def utf8_roundtrip)
  then show ?thesis using utf16_roundtrip [OF assms(1)] by simp
qed


section \<open>encode followed by decode\<close>

lemma keyDerivation_Some:
  "key \<noteq> [] \<Longrightarrow> keyDerivation (Some key) = Inr (expandKey (keyHash key) [0..<256])"
  by (simp add: keyDerivation_def)

lemma bytesToHex_nonempty: "bytesToHex bytes dk \<noteq> []"
  by (simp add: bytesToHex_def Let_def js_def)

lemma scrambled_bytes:
  assumes "validKey dk" "\<forall>b\<in>set bs. 0 \<le> b \<and> b < 256"
  shows "\<forall>b\<in>set (map (\<lambda>i. scrambleByte (bs ! i) i dk) [0..<length bs]). 0 \<le> b \<and> b < 256"
  using assms by (auto simp: scramble_range)

lemma unscramble_all:
  assumes "validKey dk" "\<forall>b\<in>set bs. 0 \<le> b \<and> b < 256"
  shows "uint8Array (map (\<lambda>i. unscrambleByte (map (\<lambda>i. scrambleByte (bs ! i) i dk) [0..<length bs] ! i) i dk)
           [0..<length (map (\<lambda>i. scrambleByte (bs ! i) i dk) [0..<length bs])]) = bs"
proof -
  have a: "map (\<lambda>i. unscrambleByte (map (\<lambda>i. scrambleByte (bs ! i) i dk) [0..<length bs] ! i) i dk)
           [0..<length (map (\<lambda>i. scrambleByte (bs ! i) i dk) [0..<length bs])]
        = map (\<lambda>i. Some (bs ! i)) [0..<length bs]"
    using assms by (auto simp: unscramble_scramble)
  have b: "uint8Array (map (\<lambda>i. Some (bs ! i)) [0..<length bs]) = map (\<lambda>i. bs ! i) [0..<length bs]"
    using assms(2) by (auto simp: uint8Array_def)
  have c: "map (\<lambda>i. bs ! i) [0..<length bs] = bs" by (rule map_nth)
  show ?thesis by (simp only: a b c)
qed

lemma roundTrip_bytes:
  assumes "key \<noteq> []"
  shows "roundTrip (Some text) (Some key) = Inr (textDecoder_decode (textEncoder_encode text))"
proof (cases "text = []")
  case True
  then show ?thesis
    by (simp add: roundTrip_def encode_def decode_def textDecoder_decode_def textEncoder_encode_def)
next
  case False
  define dk where "dk = expandKey (keyHash key) [0..<256]"
  define bs where "bs = textEncoder_encode text"
  define enc where "enc = map (\<lambda>i. scrambleByte (bs ! i) i dk) [0..<length bs]"
  have vk: "validKey dk" unfolding dk_def by (rule validKey_expandKey)
  have bs: "\<forall>b\<in>set bs. 0 \<le> b \<and> b < 256" unfolding bs_def using textEncoder_bytes by blast
  have kd: "keyDerivation (Some key) = Inr dk"
    unfolding dk_def using assms by (rule keyDerivation_Some)
  have e: "encode (Some text) (Some key) = Inr (bytesToHex enc dk)"
    using False by (simp add: encode_def kd Let_def enc_def bs_def)
  have h: "hexToBytes (bytesToHex enc dk) dk = Inr enc"
    using vk scrambled_bytes [OF vk bs] unfolding enc_def by (rule hexToBytes_bytesToHex)
  have "decode (Some (bytesToHex enc dk)) (Some key)
      = Inr (textDecoder_decode (uint8Array (map (\<lambda>i. unscrambleByte (enc ! i) i dk) [0..<length enc])))"
    by (simp add: decode_def bytesToHex_nonempty kd h Let_def)
  also have "uint8Array (map (\<lambda>i. unscrambleByte (enc ! i) i dk) [0..<length enc]) = bs"
    unfolding enc_def using vk bs by (rule unscramble_all)
  finally show ?thesis by (simp add: roundTrip_def e bs_def)
qed



section \<open>Frames under the passphrase k\<close>

text \<open>The checksum reads only the first 16 bytes of the derived key.\<close>

lemma foldl_key_take:
  assumes "\<forall>i\<in>set is. i < n"
  shows "foldl (\<lambda>checksum i. js_rem (checksum + dk ! i * (int i + 1)) 65536) a is
      = foldl (\<lambda>checksum i. js_rem (checksum + take n dk ! i * (int i + 1)) 65536) a is"
  using assms by (induction "is" arbitrary: a) simp_all

lemma calculateChecksum_take16:
  assumes "16 \<le> length dk"
  shows "calculateChecksum data dk = calculateChecksum data (take 16 dk)"
proof -
  have m: "min (length dk) 16 = 16" "min (length (take 16 dk)) 16 = 16" using assms by simp_all
  have s: "\<forall>i\<in>set [0..<16]. i < 16" by (simp del: upt_rec_numeral)
  show ?thesis
    unfolding calculateChecksum_def Let_def m by (subst foldl_key_take [OF s]) (rule refl)
qed

lemma expandKey_take: "take n (expandKey h is) = expandKey h (take n is)"
proof (induction "is" arbitrary: h n)
  case Nil
  show ?case by simp
next
  case (Cons i "is")
  show ?case by (cases n) (simp_all add: Let_def Cons.IH)
qed

lemma keystreamFrom_Cons:
  "keystreamFrom step acc (i # is) =
     step acc (int i + 7919) mod 256 # keystreamFrom step (step acc (int i + 7919)) is"
  by (simp add: Let_def)

lemma keyHash_k: "keyHash (js ''k'') = 177680"
  by (simp add: keyHash_def js_def hashStep_def js_and_def js_shl_def toInt32_def charCode_def)

lemma key_k_first16:
  "take 16 (expandKey (keyHash (js ''k'')) [0..<256]) =
     [255, 207, 160, 146, 197, 89, 110, 36, 155, 243, 76, 198, 129, 157, 58, 120]"
proof -
  have "take 16 [0..<256] = [0..<16]" by (simp add: take_upt del: upt_rec_numeral)
  then have "take 16 (expandKey (keyHash (js ''k'')) [0..<256]) = expandKey 177680 [0..<16]"
    by (simp only: expandKey_take keyHash_k)
  also have "\<dots> = keystreamFrom djb2Step 177680 [0..<16]"
    by (simp only: expandKey_eq) simp
  also have "[0..<16] = [0, 1, 2, 3, 4, 5, 6, 7, 8, 9, 10, 11, 12, 13, 14, 15]"
    by (simp add: upt_conv_Cons)
  also have "keystreamFrom djb2Step 177680 [0, 1, 2, 3, 4, 5, 6, 7, 8, 9, 10, 11, 12, 13, 14, 15]
      = [255, 207, 160, 146, 197, 89, 110, 36, 155, 243, 76, 198, 129, 157, 58, 120]"
    by (simp add: keystreamFrom_Cons djb2Step_def del: keystreamFrom.simps(2))
  finally show ?thesis .
qed

lemma checksum_k:
  "calculateChecksum data (expandKey (keyHash (js ''k'')) [0..<256]) =
   calculateChecksum data [255, 207, 160, 146, 197, 89, 110, 36, 155, 243, 76, 198, 129, 157, 58, 120]"
  using calculateChecksum_take16 [of "expandKey (keyHash (js ''k'')) [0..<256]" data]
  by (simp add: length_expandKey key_k_first16 del: upt_rec_numeral)

lemma checksum_key_fold:
  "foldl (\<lambda>checksum i. js_rem (checksum + dk ! i * (int i + 1)) 65536) a (i # is)
   = foldl (\<lambda>checksum i. js_rem (checksum + dk ! i * (int i + 1)) 65536)
       (js_rem (a + dk ! i * (int i + 1)) 65536) is"
  by simp

lemma checksum_1g:
  "calculateChecksum (js ''1g'') [255, 207, 160, 146, 197, 89, 110, 36, 155, 243, 76, 198, 129, 157, 58, 120]
   = js ''4cb2''"
proof -
  have m: "min (length [255, 207, 160, 146, 197, 89, 110, 36, 155, 243, 76, 198, 129, 157, 58,
             120 :: int]) 16 = 16" by simp
  have u: "[0..<16] = [0, 1, 2, 3, 4, 5, 6, 7, 8, 9, 10, 11, 12, 13, 14, 15]"
    by (simp add: upt_conv_Cons)
  have d: "foldl (\<lambda>checksum c. js_rem (checksum * 31 + charCode c) 65536) 0 (js ''1g'') = 1622"
    by (simp add: js_def charCode_def js_rem_def)
  have k: "foldl (\<lambda>checksum i. js_rem (checksum + [255, 207, 160, 146, 197, 89, 110, 36, 155, 243,
             76, 198, 129, 157, 58, 120] ! i * (int i + 1)) 65536) 1622
             [0, 1, 2, 3, 4, 5, 6, 7, 8, 9, 10, 11, 12, 13, 14, 15] = 19634"
    by (simp add: js_rem_def)
  have t: "padStart 4 0x30 (toString16 19634) = js ''4cb2''"
    by (simp add: toString16_def padStart_def hexDigitsOf_small hexDigitsOf_large js_def)
  show ?thesis unfolding calculateChecksum_def Let_def m u d k t by (rule refl)
qed


lemma key_k_0: "expandKey (keyHash (js ''k'')) [0..<256] ! 0 = 255"
proof -
  have "take 16 (expandKey (keyHash (js ''k'')) [0..<256]) ! 0 = 255"
    by (simp only: key_k_first16) simp
  then show ?thesis by simp
qed

lemma scramble_A_k: "scrambleByte 65 0 (expandKey (keyHash (js ''k'')) [0..<256]) = 131"
proof -
  have s: "substitutionMatrix ! 65 = 123"
    using substitutionMatrix_nth [of 65] by simp
  have x1: "js_xor 123 255 = 132" by (simp add: js_xor_def toInt32_def)
  have x2: "js_and (js_or (js_shl 132 0) (js_sar 132 8)) 255 = 132"
    by (simp add: js_or_def js_and_def js_shl_def js_sar_def toInt32_def)
  have x3: "js_and 387 255 = 131" by (simp add: js_and_def toInt32_def)
  show ?thesis
    by (simp add: scrambleByte_def Let_def s length_expandKey key_k_0 x1 x2 x3
          del: upt_rec_numeral)
qed

lemma checksum_83:
  "calculateChecksum (js ''83'') [255, 207, 160, 146, 197, 89, 110, 36, 155, 243, 76, 198, 129, 157, 58, 120]
   = js ''4d57''"
proof -
  have m: "min (length [255, 207, 160, 146, 197, 89, 110, 36, 155, 243, 76, 198, 129, 157, 58,
             120 :: int]) 16 = 16" by simp
  have u: "[0..<16] = [0, 1, 2, 3, 4, 5, 6, 7, 8, 9, 10, 11, 12, 13, 14, 15]"
    by (simp add: upt_conv_Cons)
  have d: "foldl (\<lambda>checksum c. js_rem (checksum * 31 + charCode c) 65536) 0 (js ''83'') = 1787"
    by (simp add: js_def charCode_def js_rem_def)
  have k: "foldl (\<lambda>checksum i. js_rem (checksum + [255, 207, 160, 146, 197, 89, 110, 36, 155, 243,
             76, 198, 129, 157, 58, 120] ! i * (int i + 1)) 65536) 1787
             [0, 1, 2, 3, 4, 5, 6, 7, 8, 9, 10, 11, 12, 13, 14, 15] = 19799"
    by (simp add: js_rem_def)
  have t: "padStart 4 0x30 (toString16 19799) = js ''4d57''"
    by (simp add: toString16_def padStart_def hexDigitsOf_small hexDigitsOf_large js_def)
  show ?thesis unfolding calculateChecksum_def Let_def m u d k t by (rule refl)
qed

lemma encode_A_k: "encode (Some (js ''A'')) (Some (js ''k'')) = Inr (js ''83.4d57'')"
proof -
  have k: "js ''k'' \<noteq> []" by (simp add: js_def)
  have b: "textEncoder_encode (js ''A'') = [65]"
    by (simp add: textEncoder_encode_def js_def isLead_def isTrail_def utf8_of_scalar_def)
  have h: "padStart 2 0x30 (toString16 131) = js ''83''"
    by (simp add: toString16_def padStart_def hexDigitsOf_small hexDigitsOf_large js_def)
  have "bytesToHex [131] (expandKey (keyHash (js ''k'')) [0..<256]) = js ''83.4d57''"
    by (simp add: bytesToHex_def Let_def h checksum_k checksum_83 del: upt_rec_numeral)
       (simp add: js_def)
  then show ?thesis
    by (simp add: encode_def keyDerivation_Some [OF k] b scramble_A_k Let_def del: upt_rec_numeral)
       (simp add: js_def)
qed

lemma takeWhile_hex_portion:
  "d \<notin> set s \<Longrightarrow> takeWhile (\<lambda>x. x \<noteq> d) (s @ d # t) = s"
  by (induction s) auto

lemma encode_frame:
  assumes "text \<noteq> []" "key \<noteq> []"
  shows "\<exists>hex. encode (Some text) (Some key)
              = Inr (hex @ 0x2E # calculateChecksum hex (expandKey (keyHash key) [0..<256]))
            \<and> 0x2E \<notin> set hex"
proof -
  define dk where "dk = expandKey (keyHash key) [0..<256]"
  define bs where "bs = textEncoder_encode text"
  define enc where "enc = map (\<lambda>i. scrambleByte (bs ! i) i dk) [0..<length bs]"
  define hex where "hex = concat (map (\<lambda>b. padStart 2 0x30 (toString16 b)) enc)"
  have vk: "validKey dk" unfolding dk_def by (rule validKey_expandKey)
  have bs: "\<forall>b\<in>set bs. 0 \<le> b \<and> b < 256" unfolding bs_def using textEncoder_bytes by blast
  have en: "\<forall>b\<in>set enc. 0 \<le> b \<and> b < 256"
    unfolding enc_def using vk bs by (rule scrambled_bytes)
  have "0x2E \<notin> set hex"
    unfolding hex_def using hex_of_bytes_chars [OF en] by (rule hex_chars_no_dot)
  moreover have "encode (Some text) (Some key) = Inr (hex @ 0x2E # calculateChecksum hex dk)"
    using assms(1)
    by (simp add: encode_def keyDerivation_Some [OF assms(2)] Let_def bytesToHex_def
          hex_def enc_def bs_def dk_def js_def del: upt_rec_numeral)
  ultimately show ?thesis unfolding dk_def by blast
qed


lemma hexToBytes_1g_k:
  "hexToBytes (js ''1g.4cb2'') (expandKey (keyHash (js ''k'')) [0..<256]) = Inr [1]"
proof -
  have s: "split_on 0x2E (js ''1g.4cb2'') = [js ''1g'', js ''4cb2'']"
    by (simp add: js_def)
  have p: "parsePairs (js ''1g'') = Inr [1]"
    by (simp add: js_def parseInt16_def isStrWhiteSpace_def hexDigitValue_def Let_def)
  have l: "length (js ''1g'') mod 2 = 0" by (simp add: js_def)
  show ?thesis
    by (simp add: hexToBytes_def s checksum_k checksum_1g p l del: upt_rec_numeral)
qed

lemma unscramble_1_k: "unscrambleByte 1 0 (expandKey (keyHash (js ''k'')) [0..<256]) = Some 163"
proof -
  have x1: "js_and 2 255 = 2" by (simp add: js_and_def toInt32_def)
  have x2: "js_and (js_or (js_sar 2 0) (js_shl 2 8)) 255 = 2"
    by (simp add: js_or_def js_and_def js_shl_def js_sar_def toInt32_def)
  have x3: "js_xor 2 255 = 253" by (simp add: js_xor_def toInt32_def)
  have "substitutionMatrix ! 163 = 253" using substitutionMatrix_nth [of 163] by simp
  then have i: "inverseMatrix ! 253 = Some 163" using inverse_of_table [of 163] by simp
  show ?thesis
    by (simp add: unscrambleByte_def Let_def length_expandKey key_k_0 x1 x2 x3 i
          del: upt_rec_numeral)
qed

lemma decode_1g_k:
  "decode (Some (js ''1g.4cb2'')) (Some (js ''k'')) = Inr [0xFFFD]"
proof -
  have k: "js ''k'' \<noteq> []" by (simp add: js_def)
  have n: "js ''1g.4cb2'' \<noteq> []" by (simp add: js_def)
  have t: "textDecoder_decode [163] = [0xFFFD]"
    by (simp add: textDecoder_decode_def utf16_of_scalar_def)
  show ?thesis
    by (simp add: decode_def n keyDerivation_Some [OF k] hexToBytes_1g_k Let_def unscramble_1_k
          uint8Array_def t del: upt_rec_numeral)
qed

section \<open>The detection loop\<close>

lemma calculateConfidence_lower:
  assumes "r \<noteq> []" "r \<noteq> input"
  shows "0.5 \<le> calculateConfidence input r ty"
  using assms by (cases ty) (simp_all add: calculateConfidence_def Let_def)

lemma attempt_recorded:
  assumes "recorded d input st"
  shows "recorded d input (attempt d settings input st ty)"
proof (cases "shouldAttemptDecoding input ty settings \<and> encodingTest d ty input")
  case False
  then show ?thesis using assms by (auto simp: attempt_def)
next
  case True
  show ?thesis
  proof (cases "decodeAs d ty input")
    case None
    then show ?thesis using assms True by (simp add: attempt_def)
  next
    case (Some r)
    show ?thesis
    proof (cases "r \<noteq> [] \<and> r \<noteq> input")
      case False
      then show ?thesis using assms True Some by (auto simp: attempt_def)
    next
      case ok: True
      then have "0 < calculateConfidence input r ty"
        using calculateConfidence_lower [of r input ty] by simp
      then show ?thesis
        using assms True Some ok
        by (auto simp: recorded_def attempt_def Let_def split: option.splits)
    qed
  qed
qed

lemma foldl_recorded:
  "recorded d input st \<Longrightarrow> recorded d input (foldl (attempt d settings input) st tys)"
  by (induction tys arbitrary: st) (simp_all add: attempt_recorded)

lemma initial_recorded:
  "recorded d input \<lparr>bestResult = None, bestType = None, bestConfidence = 0, results = []\<rparr>"
  by (simp add: recorded_def)

lemma typeName_inj: "typeName a = typeName b \<Longrightarrow> a = b"
  by (cases a; cases b) simp_all
















section \<open>Claims about the substitution table, the key stream and empty input\<close>

text \<open>
  Claim C7. The table holds \<open>(i*17 + 42) mod 256\<close> at every index \<open>i\<close> in 0..255, it is a
  permutation of 0..255 (256 distinct entries whose set is 0..255), and the inverse table
  built by scatter assignment maps \<open>table[b]\<close> back to \<open>b\<close> for every byte \<open>b\<close>.
\<close>
theorem substitution_table_bijection:
  "length substitutionMatrix = 256
   \<and> (\<forall>i<256. substitutionMatrix ! i = (int i * 17 + 42) mod 256)
   \<and> distinct substitutionMatrix
   \<and> set substitutionMatrix = {0..255}
   \<and> (\<forall>b<256. inverseMatrix ! nat (substitutionMatrix ! b) = Some (int b))"
proof -
  have d: "distinct substitutionMatrix"
    unfolding distinct_conv_nth using table_inj by (auto simp: length_substitutionMatrix)
  have sub: "set substitutionMatrix \<subseteq> {0..255}"
  proof
    fix v assume "v \<in> set substitutionMatrix"
    then obtain i where "i < 256" "v = substitutionMatrix ! i"
      by (auto simp: in_set_conv_nth length_substitutionMatrix)
    then show "v \<in> {0..255}" using substitutionMatrix_range [of i] by simp
  qed
  have "card (set substitutionMatrix) = 256"
    using d by (simp add: distinct_card length_substitutionMatrix)
  then have "card (set substitutionMatrix) = card {0..255::int}" by simp
  then have "set substitutionMatrix = {0..255}"
    using sub by (intro card_subset_eq) auto
  then show ?thesis
    using d inverse_of_table substitutionMatrix_nth length_substitutionMatrix by blast
qed

theorem substitution_table_bijection_witness:
  "(7::nat) < 256 \<and> substitutionMatrix ! 7 = 161 \<and> inverseMatrix ! nat (substitutionMatrix ! 7) = Some 7"
proof -
  have h: "(7::nat) < 256" by simp
  from substitution_table_bijection h
  have "substitutionMatrix ! 7 = (int 7 * 17 + 42) mod 256"
    and "inverseMatrix ! nat (substitutionMatrix ! 7) = Some (int 7)" by blast+
  then show ?thesis by simp
qed

text \<open>
  Claim C6. For a non-empty passphrase key derivation succeeds with a key stream of exactly
  256 elements, each in 0..255, and deriving again from an identical passphrase gives the
  identical key stream.
\<close>
theorem keyDerivation_deterministic_256_bytes:
  assumes "key \<noteq> []"
  shows "\<exists>derivedKey. keyDerivation (Some key) = Inr derivedKey
           \<and> length derivedKey = 256
           \<and> (\<forall>b\<in>set derivedKey. 0 \<le> b \<and> b \<le> 255)
           \<and> (\<forall>key'. key' = key \<longrightarrow> keyDerivation (Some key') = Inr derivedKey)"
  using assms validKey_expandKey [of "keyHash key"]
  by (auto simp: keyDerivation_def validKey_def simp del: upt_rec_numeral)

theorem keyDerivation_deterministic_256_bytes_witness:
  "js ''k3y!'' \<noteq> [] \<and> (\<exists>derivedKey. keyDerivation (Some (js ''k3y!'')) = Inr derivedKey
           \<and> length derivedKey = 256 \<and> (\<forall>b\<in>set derivedKey. 0 \<le> b \<and> b \<le> 255))"
proof -
  have h: "js ''k3y!'' \<noteq> []" by (simp add: js_def)
  from keyDerivation_deterministic_256_bytes [OF h] show ?thesis using h by blast
qed

text \<open>
  Claim C10. With an empty or missing text both \<open>encode\<close> and \<open>decode\<close> return the empty
  string whatever the key is, also for the missing and the empty key that key derivation
  rejects, and also though the empty string is no valid frame for \<open>hexToBytes\<close>.
\<close>
theorem empty_text_skips_key_and_checksum:
  "encode (Some []) key = Inr [] \<and> encode None key = Inr []
   \<and> decode (Some []) key = Inr [] \<and> decode None key = Inr []
   \<and> keyDerivation None = Inl KeyRequired \<and> keyDerivation (Some []) = Inl KeyRequired
   \<and> hexToBytes [] derivedKey = Inl InvalidFormat"
  by (simp add: encode_def decode_def keyDerivation_def hexToBytes_def)

lemma hd_keystreamFrom:
  "hd (keystreamFrom step acc [0..<256]) = step acc 7919 mod 256"
proof -
  have "[0..<256] = 0 # [Suc 0..<256]" by (rule upt_conv_Cons) simp
  then show ?thesis by (simp only: keystreamFrom.simps Let_def list.sel) simp
qed

lemma keyDerivation_djb2:
  "key \<noteq> [] \<Longrightarrow> keyDerivation (Some key) = Inr (specKeystream djb2Step key)"
  by (simp add: keyDerivation_def keyHash_def specKeystream_def expandKey_eq keyHash_mod
        del: upt_rec_numeral)

text \<open>
  Claim C5, as stated, with the mixing step \<open>acc*33 + acc + x\<close>: the key stream of the
  passphrase \<open>a\<close> starts with 101, the code's with 181.
\<close>

theorem keyDerivation_claimed_step_counterexample:
  "keyDerivation (Some (js ''a'')) \<noteq> Inr (specKeystream claimedStep (js ''a''))"
proof -
  have "hd (specKeystream claimedStep (js ''a'')) = 101"
    by (simp add: specKeystream_def hd_keystreamFrom claimedStep_def js_def charCode_def
          del: upt_rec_numeral)
  moreover have "hd (specKeystream djb2Step (js ''a'')) = 181"
    by (simp add: specKeystream_def hd_keystreamFrom djb2Step_def js_def charCode_def
          del: upt_rec_numeral)
  moreover have "keyDerivation (Some (js ''a'')) = Inr (specKeystream djb2Step (js ''a''))"
    by (rule keyDerivation_djb2) (simp add: js_def)
  ultimately show ?thesis by auto
qed

text \<open>
  Claim C5, amended. The code shifts left by 5 and adds the accumulator, so the mixing step
  is \<open>acc*32 + acc + x\<close> (that is \<open>acc*33 + x\<close>) truncated to 32 bits; with this step the
  derived key is the specified key stream, byte for byte, for every non-empty passphrase.
\<close>

theorem keyDerivation_is_djb2_keystream:
  "key \<noteq> [] \<Longrightarrow> keyDerivation (Some key) = Inr (specKeystream djb2Step key)"
  by (rule keyDerivation_djb2)

theorem keyDerivation_is_djb2_keystream_witness:
  "js ''k3y!'' \<noteq> [] \<and> keyDerivation (Some (js ''k3y!'')) = Inr (specKeystream djb2Step (js ''k3y!''))"
proof -
  have h: "js ''k3y!'' \<noteq> []" by (simp add: js_def)
  from keyDerivation_is_djb2_keystream [OF h] show ?thesis using h by simp
qed

section \<open>Claims about the round trip and the frame\<close>

text \<open>
  Claim C1, as stated, for every text: a text that is a lone surrogate comes back as U+FFFD,
  because TextEncoder replaces it before the cipher sees it, and a text that starts with
  U+FEFF comes back without it, because TextDecoder drops a leading byte order mark.
\<close>

theorem roundTrip_lone_surrogate_and_BOM_counterexample:
  "roundTrip (Some [0xD800]) (Some (js ''k'')) = Inr [0xFFFD]
   \<and> roundTrip (Some [0xFEFF, 0x41]) (Some (js ''k'')) = Inr [0x41]"
proof -
  have k: "js ''k'' \<noteq> []" by (simp add: js_def)
  have "textDecoder_decode (textEncoder_encode [0xD800]) = [0xFFFD]"
    by (simp add: textDecoder_decode_def utf8_roundtrip isLead_def utf16_of_scalar_def)
  moreover have "textDecoder_decode (textEncoder_encode [0xFEFF, 0x41]) = [0x41]"
    by (simp add: textDecoder_decode_def utf8_roundtrip isLead_def isTrail_def utf16_of_scalar_def)
  ultimately show ?thesis by (simp add: roundTrip_bytes [OF k])
qed

text \<open>
  Claim C1, amended. For every text at all and every non-empty key, decoding the encoded
  frame with the same key gives what TextDecoder reads from the UTF-8 bytes that TextEncoder
  wrote for the text: scrambling, framing, unframing and unscrambling hand back exactly the
  bytes they were given. Hence, for every text in which each surrogate is paired and which
  does not start with U+FEFF, decoding the encoded frame returns the text exactly.
\<close>

theorem roundTrip_wellFormed:
  assumes "key \<noteq> []"
  shows "roundTrip (Some text) (Some key) = Inr (textDecoder_decode (textEncoder_encode text))
       \<and> (wellFormedUTF16 text \<and> (text = [] \<or> hd text \<noteq> 0xFEFF)
            \<longrightarrow> roundTrip (Some text) (Some key) = Inr text)"
  using roundTrip_bytes [OF assms] text_roundtrip [of "text"] by simp

theorem roundTrip_wellFormed_witness:
  "js ''k3y!'' \<noteq> []
   \<and> wellFormedUTF16 [0x48, 0xE9, 0x20AC, 0xD83D, 0xDE00]
   \<and> hd [0x48, 0xE9, 0x20AC, 0xD83D, 0xDE00] \<noteq> (0xFEFF :: 16 word)
   \<and> roundTrip (Some [0x48, 0xE9, 0x20AC, 0xD83D, 0xDE00]) (Some (js ''k3y!''))
       = Inr (textDecoder_decode (textEncoder_encode [0x48, 0xE9, 0x20AC, 0xD83D, 0xDE00]))
   \<and> roundTrip (Some [0x48, 0xE9, 0x20AC, 0xD83D, 0xDE00]) (Some (js ''k3y!''))
       = Inr [0x48, 0xE9, 0x20AC, 0xD83D, 0xDE00]"
proof -
  have k: "js ''k3y!'' \<noteq> []" by (simp add: js_def)
  have w: "wellFormedUTF16 [0x48, 0xE9, 0x20AC, 0xD83D, 0xDE00]"
    by (simp add: isLead_def isTrail_def)
  have b: "hd [0x48, 0xE9, 0x20AC, 0xD83D, 0xDE00] \<noteq> (0xFEFF :: 16 word)"
    by simp
  from roundTrip_wellFormed [OF k, of "[0x48, 0xE9, 0x20AC, 0xD83D, 0xDE00]"] k w b
  show ?thesis by blast
qed

text \<open>
  Claim C3, at the frame \<open>1g.4cb2\<close> with the key derived from the passphrase \<open>k\<close>: the
  frame splits into two parts, its checksum is the right one, its hex part holds the
  character \<open>g\<close>, and \<open>hexToBytes\<close> returns the byte 1 instead of raising
  "Invalid hex character", because \<open>parseInt\<close> reads the digit 1 and ignores what follows;
  \<open>decode\<close> then returns a text instead of failing.
\<close>
theorem hexToBytes_accepts_digit_then_other:
  "(case keyDerivation (Some (js ''k'')) of
      Inl e \<Rightarrow> Inl e
    | Inr derivedKey \<Rightarrow> hexToBytes (js ''1g.4cb2'') derivedKey) = Inr [1]
   \<and> decode (Some (js ''1g.4cb2'')) (Some (js ''k'')) = Inr [0xFFFD]"
proof -
  have k: "js ''k'' \<noteq> []" by (simp add: js_def)
  show ?thesis
    by (simp add: keyDerivation_Some [OF k] hexToBytes_1g_k decode_1g_k del: upt_rec_numeral)
qed

text \<open>
  Claim C4, as stated: in the frame \<open>83.4d57\<close> that \<open>encode\<close> produces for the text \<open>A\<close>
  and the passphrase \<open>k\<close>, changing the first hex character to a dot makes \<open>hexToBytes\<close>
  fail with "Invalid format", before any checksum is computed.
\<close>

theorem hex_character_changed_to_dot_counterexample:
  "encode (Some (js ''A'')) (Some (js ''k'')) = Inr (js ''83.4d57'')
   \<and> (js ''83.4d57'')[0 := 0x2E] = js ''.3.4d57''
   \<and> (case keyDerivation (Some (js ''k'')) of
        Inl e \<Rightarrow> Inl e
      | Inr derivedKey \<Rightarrow> hexToBytes (js ''.3.4d57'') derivedKey) = Inl InvalidFormat"
proof -
  have k: "js ''k'' \<noteq> []" by (simp add: js_def)
  have "split_on 0x2E (js ''.3.4d57'') = [[], js ''3'', js ''4d57'']" by (simp add: js_def)
  then have "hexToBytes (js ''.3.4d57'') dk = Inl InvalidFormat" for dk
    by (simp add: hexToBytes_def)
  then show ?thesis
    by (simp add: encode_A_k keyDerivation_Some [OF k] del: upt_rec_numeral) (simp add: js_def)
qed

text \<open>
  Claim C4, amended. For every frame that \<open>encode\<close> produces for a non-empty text and a
  non-empty key, replacing one character of the hex part (the part before the dot) by a
  different character makes \<open>hexToBytes\<close> with the same derived key fail: with the checksum
  error when the new character is not a dot, with "Invalid format" when it is a dot. In
  both cases \<open>decode\<close> fails.
\<close>

theorem hex_mutation_rejected:
  assumes "text \<noteq> []" "key \<noteq> []"
      and "encode (Some text) (Some key) = Inr frame"
      and "keyDerivation (Some key) = Inr derivedKey"
      and "i < length (takeWhile (\<lambda>x. x \<noteq> 0x2E) frame)"
      and "c \<noteq> frame ! i"
  shows "hexToBytes (frame[i := c]) derivedKey
           = (if c = 0x2E then Inl InvalidFormat else Inl ChecksumFailed)
       \<and> decode (Some (frame[i := c])) (Some key) = Inl DecodingFailed"
proof -
  obtain hex where f: "encode (Some text) (Some key)
              = Inr (hex @ 0x2E # calculateChecksum hex (expandKey (keyHash key) [0..<256]))"
      and nd: "0x2E \<notin> set hex"
    using encode_frame [OF assms(1,2)] by blast
  have dk: "derivedKey = expandKey (keyHash key) [0..<256]"
    using assms(4) keyDerivation_Some [OF assms(2)] by simp
  have fr: "frame = hex @ 0x2E # calculateChecksum hex derivedKey"
    using f assms(3) dk by simp
  have vk: "validKey derivedKey" unfolding dk by (rule validKey_expandKey)
  have i: "i < length hex" using assms(5) nd by (simp add: fr takeWhile_hex_portion)
  have c: "c \<noteq> hex ! i" using assms(6) i by (simp add: fr nth_append)
  have h: "hexToBytes (frame[i := c]) derivedKey
           = (if c = 0x2E then Inl InvalidFormat else Inl ChecksumFailed)"
    unfolding fr using vk nd i c by (rule hexToBytes_mutated)
  have "frame[i := c] \<noteq> []" by (simp add: fr)
  then have "decode (Some (frame[i := c])) (Some key) = Inl DecodingFailed"
    using h by (simp add: decode_def assms(4))
  then show ?thesis using h by simp
qed

theorem hex_mutation_rejected_witness:
  "js ''A'' \<noteq> [] \<and> js ''k'' \<noteq> []
   \<and> encode (Some (js ''A'')) (Some (js ''k'')) = Inr (js ''83.4d57'')
   \<and> keyDerivation (Some (js ''k'')) = Inr (expandKey (keyHash (js ''k'')) [0..<256])
   \<and> 1 < length (takeWhile (\<lambda>x. x \<noteq> 0x2E) (js ''83.4d57''))
   \<and> 0x34 \<noteq> js ''83.4d57'' ! 1
   \<and> hexToBytes ((js ''83.4d57'')[1 := 0x34]) (expandKey (keyHash (js ''k'')) [0..<256])
       = Inl ChecksumFailed
   \<and> decode (Some ((js ''83.4d57'')[1 := 0x34])) (Some (js ''k'')) = Inl DecodingFailed"
proof -
  have a: "js ''A'' \<noteq> []" and k: "js ''k'' \<noteq> []" by (simp_all add: js_def)
  have i: "1 < length (takeWhile (\<lambda>x. x \<noteq> 0x2E) (js ''83.4d57''))" by (simp add: js_def)
  have c: "0x34 \<noteq> js ''83.4d57'' ! 1" by (simp add: js_def)
  from hex_mutation_rejected [OF a k encode_A_k keyDerivation_Some [OF k] i c]
  show ?thesis using a k encode_A_k keyDerivation_Some [OF k] i c by simp
qed

section \<open>Claims about detection\<close>

text \<open>
  Claim C9. For every input, every settings and every encoding of the list: when decoding
  the input as that encoding returns the input unchanged, no accepted result is of that
  encoding, and the best result is not of that encoding; no accepted result and no best
  result equals the input.
\<close>
theorem identity_decode_never_accepted:
  assumes "decodeAs d type input = Some input"
  shows "(\<forall>e\<in>set (acceptedResults (detectAndDecode d settings input)).
            entryOriginalType e \<noteq> type \<and> entryResult e \<noteq> input)
       \<and> (\<forall>r t c. best (detectAndDecode d settings input) = Some (r, t, c)
            \<longrightarrow> t \<noteq> typeName type \<and> r \<noteq> input)"
proof -
  define st where "st = foldl (attempt d settings input)
      \<lparr>bestResult = None, bestType = None, bestConfidence = 0, results = []\<rparr> encodingTests"
  have rec: "recorded d input st"
    unfolding st_def using initial_recorded by (rule foldl_recorded)
  have e: "entryOriginalType e \<noteq> type \<and> entryResult e \<noteq> input \<and> entryType e \<noteq> typeName type"
    if "e \<in> set (results st)" for e
    using rec that assms typeName_inj by (fastforce simp: recorded_def)
  have b: "t \<noteq> typeName type \<and> r \<noteq> input" if "bestResult st = Some r" "bestType st = Some t" for r t
    using rec that e by (fastforce simp: recorded_def)
  have acc: "set (acceptedResults (detectAndDecode d settings input)) \<subseteq> set (results st)"
    by (auto simp: detectAndDecode_def Let_def st_def [symmetric] split: option.splits)
  have bst: "bestResult st = Some r \<and> bestType st = Some t"
    if "best (detectAndDecode d settings input) = Some (r, t, c)" for r t c
    using that rec
    by (auto simp: detectAndDecode_def Let_def st_def [symmetric] recorded_def
             split: option.splits if_splits)
  show ?thesis using e acc b bst by blast
qed

theorem identity_decode_never_accepted_witness:
  "\<forall>d. decodeAs d Rot13 (js ''12 34'') = Some (js ''12 34'')
     \<and> (\<forall>e\<in>set (acceptedResults (detectAndDecode d defaultSettings (js ''12 34''))).
            entryOriginalType e \<noteq> Rot13 \<and> entryResult e \<noteq> js ''12 34'')
     \<and> (\<forall>r t c. best (detectAndDecode d defaultSettings (js ''12 34'')) = Some (r, t, c)
            \<longrightarrow> t \<noteq> typeName Rot13 \<and> r \<noteq> js ''12 34'')"
proof
  fix d
  have h: "decodeAs d Rot13 (js ''12 34'') = Some (js ''12 34'')"
    by (simp add: rot13_def js_def isUpper_def isLower_def)
  from identity_decode_never_accepted [OF h, of defaultSettings] h
  show "decodeAs d Rot13 (js ''12 34'') = Some (js ''12 34'')
     \<and> (\<forall>e\<in>set (acceptedResults (detectAndDecode d defaultSettings (js ''12 34''))).
            entryOriginalType e \<noteq> Rot13 \<and> entryResult e \<noteq> js ''12 34'')
     \<and> (\<forall>r t c. best (detectAndDecode d defaultSettings (js ''12 34'')) = Some (r, t, c)
            \<longrightarrow> t \<noteq> typeName Rot13 \<and> r \<noteq> js ''12 34'')"
    by blast
qed



end
